theory Spec2Isabelle
  imports
    Complex_Main
    "HOL-Library.AList"
    "HOL-Library.Char_ord"
    "HOL-Library.List_Lexorder"
begin

section \<open>Data model\<close>

text \<open>
  The detector of \<^verbatim>\<open>detector.py\<close> reads a batch of transaction rows, builds a
  \<^verbatim>\<open>networkx.DiGraph\<close>, runs three pattern detectors over it and fuses their evidence
  into per-account scores.

  A row is modelled after \<^verbatim>\<open>build_graph\<close> has coerced its fields: identifiers are
  strings, the amount is a number and the timestamp is an instant.  A row that does not
  parse makes \<^verbatim>\<open>build_graph\<close> raise, so that there is no output at all; the
  batches below are the ones that parse.  Python's floats are idealised as reals, and an
  instant is a whole number of seconds (the three \<^verbatim>\<open>strptime\<close> formats have no
  fractional part).
\<close>

type_synonym instant = int

record transaction =
  transaction_id :: string
  sender_id :: string
  receiver_id :: string
  amount :: real
  timestamp :: instant

text \<open>The attribute dictionary that \<^verbatim>\<open>add_edge\<close> stores with an edge.\<close>

record edge_data =
  e_transaction_id :: string
  e_amount :: real
  e_timestamp :: instant

type_synonym edge = "(string \<times> string) \<times> edge_data"

text \<open>
  \<^verbatim>\<open>nx.DiGraph\<close> keeps its nodes in a dictionary and its edges in dictionaries of
  dictionaries (\<^verbatim>\<open>_succ[u][v]\<close> and \<^verbatim>\<open>_pred[v][u]\<close> hold the same attribute
  dictionary), all of them in insertion order.  The model keeps the nodes as a list in
  insertion order and the edges as one association list keyed by the ordered pair
  \<open>(u, v)\<close>, in the order in which the pairs were first inserted; the adjacency views of
  one node are the sublists of that list, which is the order of \<^verbatim>\<open>_succ[u]\<close> and of
  \<^verbatim>\<open>_pred[v]\<close>.
\<close>

record digraph =
  g_nodes :: "string list"
  g_edges :: "edge list"

definition empty_graph :: digraph where
  "empty_graph = \<lparr>g_nodes = [], g_edges = []\<rparr>"

text \<open>\<^verbatim>\<open>g.add_node(n)\<close>: a node that is already present stays where it is.\<close>

definition add_node :: "string \<Rightarrow> digraph \<Rightarrow> digraph" where
  "add_node n g = (if n \<in> set (g_nodes g) then g else g\<lparr>g_nodes := g_nodes g @ [n]\<rparr>)"

text \<open>
  \<^verbatim>\<open>g.add_edge(u, v, **attr)\<close>: the attribute dictionary of an edge that is already
  present is updated in place (here every call gives all three attributes, so it is
  replaced); a new edge comes last.
\<close>

definition add_edge :: "string \<Rightarrow> string \<Rightarrow> edge_data \<Rightarrow> digraph \<Rightarrow> digraph" where
  "add_edge u v d g = g\<lparr>g_edges := AList.update (u, v) d (g_edges g)\<rparr>"

definition in_edges :: "digraph \<Rightarrow> string \<Rightarrow> edge list" where
  "in_edges g n = filter (\<lambda>e. snd (fst e) = n) (g_edges g)"

definition out_edges :: "digraph \<Rightarrow> string \<Rightarrow> edge list" where
  "out_edges g n = filter (\<lambda>e. fst (fst e) = n) (g_edges g)"

definition in_degree :: "digraph \<Rightarrow> string \<Rightarrow> nat" where
  "in_degree g n = length (in_edges g n)"

definition out_degree :: "digraph \<Rightarrow> string \<Rightarrow> nat" where
  "out_degree g n = length (out_edges g n)"

text \<open>\<^verbatim>\<open>g.edges(data=True)\<close>: the out-edges of each node, node by node.\<close>

definition edges_view :: "digraph \<Rightarrow> edge list" where
  "edges_view g = concat (map (out_edges g) (g_nodes g))"

section \<open>Graph builder\<close>

definition edge_of :: "transaction \<Rightarrow> edge_data" where
  "edge_of row = \<lparr>e_transaction_id = transaction_id row, e_amount = amount row,
     e_timestamp = timestamp row\<rparr>"

definition add_row :: "digraph \<Rightarrow> transaction \<Rightarrow> digraph" where
  "add_row g row =
     add_edge (sender_id row) (receiver_id row) (edge_of row)
       (add_node (receiver_id row) (add_node (sender_id row) g))"

definition build_graph :: "transaction list \<Rightarrow> digraph" where
  "build_graph df = foldl add_row empty_graph df"

text \<open>The ordered pair \<open>(sender, receiver)\<close> of a row.\<close>

definition pair_of :: "transaction \<Rightarrow> string \<times> string" where
  "pair_of row = (sender_id row, receiver_id row)"

text \<open>What every graph built by the calls above satisfies.\<close>

definition wf_graph :: "digraph \<Rightarrow> bool" where
  "wf_graph g \<longleftrightarrow>
     distinct (g_nodes g) \<and> distinct (map fst (g_edges g)) \<and>
     fst ` fst ` set (g_edges g) \<subseteq> set (g_nodes g) \<and>
     snd ` fst ` set (g_edges g) \<subseteq> set (g_nodes g)"

section \<open>Rings and account scores\<close>

text \<open>
  The \<^verbatim>\<open>details\<close> dictionary of a ring has one of four shapes, one per detector.
\<close>

datatype details =
    Cycle_details (d_length: nat)
  | Fan_in_details (d_receiver: string) (d_cluster_size: int)
  | Fan_out_details (d_sender: string) (d_cluster_size: int)
  | Shell_details (d_path: "string list") (d_intermediates: "string list")

record FraudRing =
  ring_id :: string
  members :: "string list"
  pattern_type :: string
  ring_risk_score :: real
  details :: details

text \<open>
  A reason is one of the texts the source appends to \<^verbatim>\<open>reasons\<close>; the argument of a
  constructor is the value that the text interpolates.
\<close>

datatype reason =
    High_degree_centrality real
  | Fan_in_receiver int
  | Fan_in_sender
  | Fan_out_sender int
  | Fan_out_receiver
  | Shell_intermediary
  | Shell_originator
  | Shell_destination
  | Ring_member string

record AccountScore =
  account_id :: string
  risk_score :: real
  reasons :: "reason list"

text \<open>
  A \<^verbatim>\<open>Dict[str, AccountScore]\<close> is an association list in insertion order.
\<close>

type_synonym scores = "(string \<times> AccountScore) list"

text \<open>
  The closure \<^verbatim>\<open>add_reason\<close> of the two detectors: create the entry when it is
  missing, then add to its score and append the reason.
\<close>

definition ensure :: "string \<Rightarrow> scores \<Rightarrow> scores" where
  "ensure acc_id combined =
     (if acc_id \<in> fst ` set combined then combined
      else combined @ [(acc_id, \<lparr>account_id = acc_id, risk_score = 0, reasons = []\<rparr>)])"

definition add_reason :: "string \<Rightarrow> real \<Rightarrow> reason \<Rightarrow> scores \<Rightarrow> scores" where
  "add_reason acc_id score why account_scores =
     AList.map_entry acc_id
       (\<lambda>acc. acc\<lparr>risk_score := risk_score acc + score, reasons := reasons acc @ [why]\<rparr>)
       (ensure acc_id account_scores)"

text \<open>
  A Python \<^verbatim>\<open>set\<close> of strings is iterated in the order of its hash table, which
  changes with the hash seed of the process.  The model lists the elements of a set once
  each, in one fixed order; the theorems on set-derived lists below only speak of their
  elements.
\<close>

definition py_set :: "string list \<Rightarrow> string list" where
  "py_set xs = remdups xs"

section \<open>Cycle detector\<close>

text \<open>
  \<^verbatim>\<open>rotated_variants\<close> and \<^verbatim>\<open>min(rotated_variants)\<close>; tuples of strings are compared
  lexicographically.  \<^verbatim>\<open>min\<close> of an empty list raises in Python, which a cycle that
  passed the length test with \<open>min_len \<ge> 1\<close> never reaches.
\<close>

definition rotated_variants :: "string list \<Rightarrow> string list list" where
  "rotated_variants cycle = map (\<lambda>i. drop i cycle @ take i cycle) [0..<length cycle]"

definition cycle_key :: "string list \<Rightarrow> string list" where
  "cycle_key cycle = Min (set (rotated_variants cycle))"

text \<open>
  The loop of \<^verbatim>\<open>detect_cycles\<close> over the cycles that \<^verbatim>\<open>nx.simple_cycles(g)\<close>
  yields, with the set \<^verbatim>\<open>seen\<close> and the list \<^verbatim>\<open>rings\<close> as state.
\<close>

fun cycles_loop ::
  "nat \<Rightarrow> nat \<Rightarrow> string list list \<Rightarrow> string list list \<Rightarrow> FraudRing list \<Rightarrow> FraudRing list"
where
  "cycles_loop min_len max_len [] seen rings = rings"
| "cycles_loop min_len max_len (cycle # rest) seen rings =
     (if min_len \<le> length cycle \<and> length cycle \<le> max_len then
        (let key = cycle_key cycle in
         if key \<in> set seen then cycles_loop min_len max_len rest seen rings
         else cycles_loop min_len max_len rest (key # seen)
           (rings @ [\<lparr>ring_id = [], members = cycle, pattern_type = ''cycle'',
              ring_risk_score = real (60 + (length cycle - min_len) * 5),
              details = Cycle_details (length cycle)\<rparr>]))
      else cycles_loop min_len max_len rest seen rings)"

text \<open>
  \<^verbatim>\<open>detect_cycles\<close>.  The enumerator \<^verbatim>\<open>nx.simple_cycles\<close> belongs to networkx; its
  result for the graph is the first argument, and the theorems below hold for every list
  of cycles it may yield.
\<close>

definition detect_cycles :: "string list list \<Rightarrow> nat \<Rightarrow> nat \<Rightarrow> FraudRing list" where
  "detect_cycles simple_cycles min_len max_len = cycles_loop min_len max_len simple_cycles [] []"

section \<open>Smurfing detector\<close>

text \<open>The inner \<^verbatim>\<open>while\<close> loop: advance \<open>j\<close> while \<open>timestamps[j] - timestamps[i] \<le> window\<close>.\<close>

function advance :: "instant list \<Rightarrow> int \<Rightarrow> nat \<Rightarrow> nat \<Rightarrow> nat" where
  "advance ts window i j =
     (if j < length ts \<and> ts ! j - ts ! i \<le> window then advance ts window i (Suc j) else j)"
  by pat_completeness auto
termination
  by (relation "measure (\<lambda>(ts, window, i, j). length ts - j)") auto

declare advance.simps [simp del]

text \<open>
  The outer \<^verbatim>\<open>while\<close> loop.  It returns the window \<open>(i, j)\<close> at which the source
  emits a ring and breaks, or \<open>None\<close> when \<open>i\<close> reaches the end.  \<open>j\<close> is not reset when
  \<open>i\<close> moves on.
\<close>

function scan :: "instant list \<Rightarrow> int \<Rightarrow> int \<Rightarrow> nat \<Rightarrow> nat \<Rightarrow> (nat \<times> nat) option" where
  "scan ts window fan_threshold i j =
     (if i < length ts then
        (let j' = advance ts window i j in
         if int j' - int i \<ge> fan_threshold then Some (i, j')
         else scan ts window fan_threshold (Suc i) j')
      else None)"
  by pat_completeness auto
termination
  by (relation "measure (\<lambda>(ts, window, fan_threshold, i, j). length ts - i)") auto

declare scan.simps [simp del]

text \<open>
  One iteration of the fan-in pass.  The timestamps are sorted, the list \<^verbatim>\<open>incoming\<close>
  is not: \<^verbatim>\<open>incoming[k]\<close> for \<open>k\<close> in \<open>range(i, j)\<close> reads the edges in insertion order.
\<close>

definition fan_in_node ::
  "digraph \<Rightarrow> int \<Rightarrow> int \<Rightarrow> string \<Rightarrow> FraudRing list \<times> scores \<Rightarrow> FraudRing list \<times> scores"
where
  "fan_in_node g fan_threshold window node st =
     (let incoming = in_edges g node in
      if int (length incoming) \<ge> fan_threshold then
        (let timestamps = sort (map (\<lambda>e. e_timestamp (snd e)) incoming) in
         case scan timestamps window fan_threshold 0 0 of
           None \<Rightarrow> st
         | Some (i, j) \<Rightarrow>
            (let cluster = int j - int i;
                 senders = py_set (map (\<lambda>k. fst (fst (incoming ! k))) [i..<j]);
                 score = 70 + (cluster - fan_threshold) * 2
             in (fst st @ [\<lparr>ring_id = [], members = py_set (senders @ [node]),
                   pattern_type = ''smurfing_fan_in'', ring_risk_score = real_of_int score,
                   details = Fan_in_details node cluster\<rparr>],
                 fold (\<lambda>s. add_reason s (real_of_int score * 0.2) Fan_in_sender) senders
                   (add_reason node (real_of_int score * 0.6) (Fan_in_receiver cluster)
                      (snd st)))))
      else st)"

definition fan_out_node ::
  "digraph \<Rightarrow> int \<Rightarrow> int \<Rightarrow> string \<Rightarrow> FraudRing list \<times> scores \<Rightarrow> FraudRing list \<times> scores"
where
  "fan_out_node g fan_threshold window node st =
     (let outgoing = out_edges g node in
      if int (length outgoing) \<ge> fan_threshold then
        (let timestamps = sort (map (\<lambda>e. e_timestamp (snd e)) outgoing) in
         case scan timestamps window fan_threshold 0 0 of
           None \<Rightarrow> st
         | Some (i, j) \<Rightarrow>
            (let cluster = int j - int i;
                 receivers = py_set (map (\<lambda>k. snd (fst (outgoing ! k))) [i..<j]);
                 score = 70 + (cluster - fan_threshold) * 2
             in (fst st @ [\<lparr>ring_id = [], members = py_set (receivers @ [node]),
                   pattern_type = ''smurfing_fan_out'', ring_risk_score = real_of_int score,
                   details = Fan_out_details node cluster\<rparr>],
                 fold (\<lambda>r. add_reason r (real_of_int score * 0.2) Fan_out_receiver) receivers
                   (add_reason node (real_of_int score * 0.6) (Fan_out_sender cluster)
                      (snd st)))))
      else st)"

text \<open>
  \<^verbatim>\<open>detect_smurfing\<close>: the fan-in pass over all nodes, then the fan-out pass, on the
  same \<^verbatim>\<open>rings\<close> and \<^verbatim>\<open>account_scores\<close>.  The window is \<open>window_hours\<close> hours.
\<close>

definition detect_smurfing :: "digraph \<Rightarrow> int \<Rightarrow> int \<Rightarrow> FraudRing list \<times> scores" where
  "detect_smurfing g fan_threshold window_hours =
     (let window = window_hours * 3600 in
      fold (fan_out_node g fan_threshold window) (g_nodes g)
        (fold (fan_in_node g fan_threshold window) (g_nodes g) ([], [])))"

section \<open>Shell-chain detector\<close>

definition low_activity_nodes :: "digraph \<Rightarrow> int \<Rightarrow> string list" where
  "low_activity_nodes g low_activity_threshold =
     filter (\<lambda>n. int (in_degree g n + out_degree g n) \<le> low_activity_threshold) (g_nodes g)"

text \<open>\<^verbatim>\<open>list(dict.fromkeys(path))\<close>: the first occurrence of each element, in order.\<close>

definition dict_fromkeys :: "string list \<Rightarrow> string list" where
  "dict_fromkeys xs = foldl (\<lambda>keys x. if x \<in> set keys then keys else keys @ [x]) [] xs"

text \<open>The state of the detector: \<^verbatim>\<open>rings\<close>, \<^verbatim>\<open>account_scores\<close>, \<^verbatim>\<open>visited_paths\<close>.\<close>

type_synonym shell_state = "FraudRing list \<times> scores \<times> string list list"

text \<open>
  What the loop body does with a popped path that is within \<open>max_hops\<close>, before it
  pushes the neighbours: emit a ring when the path is long enough, its interior is
  non-empty and of low activity, and the path was not seen before.
\<close>

definition visit_path :: "digraph \<Rightarrow> nat \<Rightarrow> int \<Rightarrow> string list \<Rightarrow> shell_state \<Rightarrow> shell_state" where
  "visit_path g min_hops low_activity_threshold path st =
     (if length path - 1 \<ge> min_hops \<and> length path > 2 then
        (let inter = butlast (tl path) in
         if inter \<noteq> [] \<and>
            list_all (\<lambda>node. node \<in> set (low_activity_nodes g low_activity_threshold)) inter
         then
           (if path \<notin> set (snd (snd st)) then
              (let score = 50 + (int (length inter) - 1) * 5 in
               (fst st @ [\<lparr>ring_id = [], members = dict_fromkeys path,
                   pattern_type = ''shell_chain'', ring_risk_score = real_of_int score,
                   details = Shell_details path inter\<rparr>],
                add_reason (last path) (real_of_int score * 0.2) Shell_destination
                  (add_reason (hd path) (real_of_int score * 0.2) Shell_originator
                     (fold (\<lambda>mid. add_reason mid (real_of_int score * 0.4) Shell_intermediary)
                        inter (fst (snd st)))),
                path # snd (snd st)))
            else st)
         else st)
      else st)"

text \<open>
  The entries that the loop body appends to the stack, in the order of
  \<^verbatim>\<open>g.out_edges(current)\<close>.
\<close>

definition pushes :: "digraph \<Rightarrow> string \<Rightarrow> string list \<Rightarrow> (string \<times> string list) list" where
  "pushes g current path =
     map (\<lambda>e. (snd (fst e), path @ [snd (fst e)]))
       (filter (\<lambda>e. snd (fst e) \<notin> set path) (out_edges g current))"

text \<open>
  The measure under which the depth-first search ends: an entry weighs more than all
  the entries it may push.
\<close>

definition stack_weight :: "digraph \<Rightarrow> nat \<Rightarrow> (string \<times> string list) list \<Rightarrow> nat" where
  "stack_weight g max_hops stack =
     sum_list (map (\<lambda>entry. Suc (length (g_edges g)) ^ (max_hops + 2 - length (snd entry))) stack)"

lemma weight_pushes:
  "stack_weight g max_hops (pushes g current path) \<le>
     length (g_edges g) * Suc (length (g_edges g)) ^ (max_hops + 2 - Suc (length path))"
proof -
  have "stack_weight g max_hops (pushes g current path) =
      length (pushes g current path) *
        Suc (length (g_edges g)) ^ (max_hops + 2 - Suc (length path))"
    unfolding stack_weight_def pushes_def
    by (simp add: o_def sum_list_triv)
  moreover have "length (pushes g current path) \<le> length (g_edges g)"
    unfolding pushes_def out_edges_def
    by (simp add: le_trans [OF length_filter_le length_filter_le])
  ultimately show ?thesis by simp
qed

lemma weight_step:
  assumes "\<not> max_hops < length path - 1"
  shows "stack_weight g max_hops (rev (pushes g current path) @ stack)
     < stack_weight g max_hops ((current, path) # stack)"
proof -
  let ?b = "Suc (length (g_edges g))"
  from assms have "max_hops + 2 - length path = Suc (max_hops + 2 - Suc (length path))"
    by arith
  then have "?b ^ (max_hops + 2 - length path) = ?b * ?b ^ (max_hops + 2 - Suc (length path))"
    by simp
  moreover have "length (g_edges g) * ?b ^ (max_hops + 2 - Suc (length path))
      < ?b * ?b ^ (max_hops + 2 - Suc (length path))"
    by simp
  moreover have "stack_weight g max_hops (rev (pushes g current path) @ stack) =
      stack_weight g max_hops (pushes g current path) + stack_weight g max_hops stack"
    unfolding stack_weight_def by (simp add: rev_map [symmetric] sum_list_rev)
  moreover have "stack_weight g max_hops ((current, path) # stack) =
      ?b ^ (max_hops + 2 - length path) + stack_weight g max_hops stack"
    unfolding stack_weight_def by simp
  ultimately show ?thesis
    using weight_pushes [of g max_hops current path] by linarith
qed

lemma weight_pop:
  "stack_weight g max_hops stack < stack_weight g max_hops ((current, path) # stack)"
  unfolding stack_weight_def by simp

text \<open>
  The \<^verbatim>\<open>while stack\<close> loop.  The head of the list is the top of the Python stack, so
  the entries appended last are popped first.
\<close>

function shell_dfs ::
  "digraph \<Rightarrow> nat \<Rightarrow> nat \<Rightarrow> int \<Rightarrow> (string \<times> string list) list \<Rightarrow> shell_state \<Rightarrow> shell_state"
where
  "shell_dfs g min_hops max_hops low [] st = st"
| "shell_dfs g min_hops max_hops low ((current, path) # stack) st =
     (if length path - 1 > max_hops then shell_dfs g min_hops max_hops low stack st
      else shell_dfs g min_hops max_hops low (rev (pushes g current path) @ stack)
             (visit_path g min_hops low path st))"
  by pat_completeness auto
termination
  by (relation "measure (\<lambda>(g, min_hops, max_hops, low, stack, st). stack_weight g max_hops stack)")
    (simp_all add: weight_step weight_pop)

definition detect_shell_chains ::
  "digraph \<Rightarrow> nat \<Rightarrow> nat \<Rightarrow> int \<Rightarrow> FraudRing list \<times> scores"
where
  "detect_shell_chains g min_hops max_hops low_activity_threshold =
     (let st = fold (\<lambda>start. shell_dfs g min_hops max_hops low_activity_threshold
                  [(start, [start])]) (g_nodes g) ([], [], [])
      in (fst st, fst (snd st)))"

section \<open>Score combiner\<close>

text \<open>
  \<^verbatim>\<open>nx.degree_centrality\<close> belongs to networkx (version 2 and later): every node gets
  1 when the graph has at most one node, else its degree times \<open>1 / (|V| - 1)\<close>.  The
  degree of a node of a \<^verbatim>\<open>DiGraph\<close> is its in-degree plus its out-degree.
\<close>

definition degree_centrality :: "digraph \<Rightarrow> (string \<times> real) list" where
  "degree_centrality g =
     (if length (g_nodes g) \<le> 1 then map (\<lambda>n. (n, 1)) (g_nodes g)
      else (let s = 1 / (real (length (g_nodes g)) - 1) in
            map (\<lambda>n. (n, real (in_degree g n + out_degree g n) * s)) (g_nodes g)))"

definition add_centrality :: "string \<times> real \<Rightarrow> scores \<Rightarrow> scores" where
  "add_centrality entry combined =
     AList.map_entry (fst entry)
       (\<lambda>acc. acc\<lparr>risk_score := risk_score acc + snd entry * 20,
          reasons := (if snd entry > 0 then reasons acc @ [High_degree_centrality (snd entry)]
                      else reasons acc)\<rparr>)
       (ensure (fst entry) combined)"

definition add_pattern :: "string \<times> AccountScore \<Rightarrow> scores \<Rightarrow> scores" where
  "add_pattern entry combined =
     AList.map_entry (fst entry)
       (\<lambda>acc. acc\<lparr>risk_score := risk_score acc + risk_score (snd entry),
          reasons := reasons acc @ reasons (snd entry)\<rparr>)
       (ensure (fst entry) combined)"

definition add_member :: "FraudRing \<Rightarrow> string \<Rightarrow> scores \<Rightarrow> scores" where
  "add_member ring member combined =
     AList.map_entry member
       (\<lambda>acc. acc\<lparr>risk_score := risk_score acc + ring_risk_score ring * 0.3,
          reasons := reasons acc @ [Ring_member (pattern_type ring)]\<rparr>)
       (ensure member combined)"

text \<open>The dictionary \<^verbatim>\<open>combined\<close> before it is normalised.\<close>

definition combined_scores :: "digraph \<Rightarrow> FraudRing list \<Rightarrow> scores list \<Rightarrow> scores" where
  "combined_scores graph rings pattern_scores =
     fold (\<lambda>ring. fold (add_member ring) (members ring)) rings
       (fold (\<lambda>pattern_score. fold add_pattern pattern_score) pattern_scores
          (fold add_centrality
             (if length (g_nodes graph) > 0 then degree_centrality graph else []) []))"

text \<open>
  \<^verbatim>\<open>round(x, 2)\<close>: to the nearest multiple of 0.01, a tie to the even one.
\<close>

definition round_half_even :: "real \<Rightarrow> int" where
  "round_half_even y =
     (let f = \<lfloor>y\<rfloor>; d = y - of_int f in
      if d < 1 / 2 then f else if d > 1 / 2 then f + 1 else if even f then f else f + 1)"

definition py_round2 :: "real \<Rightarrow> real" where
  "py_round2 x = of_int (round_half_even (x * 100)) / 100"

definition combine_scores :: "digraph \<Rightarrow> FraudRing list \<Rightarrow> scores list \<Rightarrow> AccountScore list" where
  "combine_scores graph rings pattern_scores =
     (let accs = map snd (combined_scores graph rings pattern_scores) in
      if accs = [] then []
      else
        (let max_score = Max (set (map risk_score accs)) in
         if max_score \<le> 0 then accs
         else sort_key (\<lambda>a. - risk_score a)
                (map (\<lambda>acc. acc\<lparr>risk_score :=
                        py_round2 (min 100 (risk_score acc / max_score * 100))\<rparr>) accs)))"

section \<open>Result assembler\<close>

text \<open>\<^verbatim>\<open>f"R{i:04d}"\<close>: the decimal digits of \<open>i\<close>, padded with zeros to four.\<close>

fun decimal :: "nat \<Rightarrow> string" where
  "decimal n = (if n < 10 then [''0123456789'' ! n]
                else decimal (n div 10) @ [''0123456789'' ! (n mod 10)])"

declare decimal.simps [simp del]

definition format_ring_id :: "nat \<Rightarrow> string" where
  "format_ring_id i =
     CHR ''R'' # replicate (4 - length (decimal i)) CHR ''0'' @ decimal i"

text \<open>
  \<^verbatim>\<open>assign_ring_ids\<close>.  The ring objects are told apart by their position in
  \<^verbatim>\<open>rings\<close>: \<^verbatim>\<open>sorted\<close> returns them in a new list, here the list of their positions
  (the sort is stable, and \<^verbatim>\<open>reverse=True\<close> keeps equal scores in their order), each
  object gets the identifier of its rank, and the function returns \<^verbatim>\<open>rings\<close> itself.
\<close>

definition sorted_positions :: "FraudRing list \<Rightarrow> nat list" where
  "sorted_positions rings = sort_key (\<lambda>k. - ring_risk_score (rings ! k)) [0..<length rings]"

definition assign_ring_ids :: "FraudRing list \<Rightarrow> FraudRing list" where
  "assign_ring_ids rings =
     fold (\<lambda>(i, k) rs. rs[k := (rs ! k)\<lparr>ring_id := format_ring_id i\<rparr>])
       (zip [1..<Suc (length rings)] (sorted_positions rings)) rings"

text \<open>
  The output document.  A node record is the pair of its \<^verbatim>\<open>id\<close> and
  \<^verbatim>\<open>risk_score\<close>; an edge record is the edge itself (source, target and the three
  attributes).
\<close>

record document =
  graph_nodes :: "(string \<times> real) list"
  graph_edges :: "edge list"
  accounts :: "AccountScore list"
  fraud_rings :: "FraudRing list"

text \<open>
  \<^verbatim>\<open>detect_all_patterns\<close>, with the default parameters of the detectors.  The first
  argument stands for \<^verbatim>\<open>nx.simple_cycles\<close>.
\<close>

definition detect_all_patterns :: "(digraph \<Rightarrow> string list list) \<Rightarrow> transaction list \<Rightarrow> document" where
  "detect_all_patterns simple_cycles df =
     (let g = build_graph df;
          cycles = detect_cycles (simple_cycles g) 3 5;
          smurf = detect_smurfing g 10 72;
          shell = detect_shell_chains g 3 6 3;
          all_rings = assign_ring_ids (cycles @ fst smurf @ fst shell);
          account_scores = combine_scores g all_rings [snd smurf, snd shell]
      in \<lparr>graph_nodes =
            map (\<lambda>n. (n, case find (\<lambda>a. account_id a = n) account_scores of
                           None \<Rightarrow> 0 | Some a \<Rightarrow> risk_score a)) (g_nodes g),
          graph_edges = edges_view g,
          accounts = account_scores,
          fraud_rings = all_rings\<rparr>)"

section \<open>Auxiliary definitions for the statements\<close>

text \<open>A ring without its identifier: what \<^verbatim>\<open>assign_ring_ids\<close> leaves as it is.\<close>

definition strip_id :: "FraudRing \<Rightarrow> FraudRing" where
  "strip_id r = r\<lparr>ring_id := []\<rparr>"

text \<open>
  The number that a string of decimal digits denotes; it shows that the identifiers of
  different ranks differ.
\<close>

definition digit_value :: "char \<Rightarrow> nat" where
  "digit_value c = length (takeWhile (\<lambda>d. d \<noteq> c) ''0123456789'')"

definition decimal_value :: "string \<Rightarrow> nat" where
  "decimal_value s = foldl (\<lambda>a c. 10 * a + digit_value c) 0 s"

text \<open>One assignment \<^verbatim>\<open>ring.ring_id = f"R{i:04d}"\<close> of the loop of \<^verbatim>\<open>assign_ring_ids\<close>.\<close>

definition id_step :: "nat \<times> nat \<Rightarrow> FraudRing list \<Rightarrow> FraudRing list" where
  "id_step = (\<lambda>(i, k) rs. rs[k := (rs ! k)\<lparr>ring_id := format_ring_id i\<rparr>])"

text \<open>
  The identifier of the ring of rank \<open>m\<close> (counted from 0) in the order of descending
  score.
\<close>

definition id_at_rank :: "FraudRing list \<Rightarrow> nat \<Rightarrow> string" where
  "id_at_rank rings m = ring_id (rings ! (sorted_positions rings ! m))"

text \<open>The list \<^verbatim>\<open>cycles + smurf_rings + shell_rings\<close> of \<^verbatim>\<open>detect_all_patterns\<close>.\<close>

definition detected_rings :: "(digraph \<Rightarrow> string list list) \<Rightarrow> transaction list \<Rightarrow> FraudRing list" where
  "detected_rings simple_cycles df =
     (let g = build_graph df in
      detect_cycles (simple_cycles g) 3 5 @ fst (detect_smurfing g 10 72) @
      fst (detect_shell_chains g 3 6 3))"

text \<open>A batch of four transfers along the path A, B, C, D, E, one hour apart.\<close>

definition chain5 :: "transaction list" where
  "chain5 =
     [\<lparr>transaction_id = ''T1'', sender_id = ''A'', receiver_id = ''B'', amount = 100, timestamp = 0\<rparr>,
      \<lparr>transaction_id = ''T2'', sender_id = ''B'', receiver_id = ''C'', amount = 100, timestamp = 3600\<rparr>,
      \<lparr>transaction_id = ''T3'', sender_id = ''C'', receiver_id = ''D'', amount = 100, timestamp = 7200\<rparr>,
      \<lparr>transaction_id = ''T4'', sender_id = ''D'', receiver_id = ''E'', amount = 100, timestamp = 10800\<rparr>]"

text \<open>
  \<open>b\<close> is a rotation of \<open>a\<close>: a cyclic shift of \<open>a\<close> by some number of places, in terms
  of the library's \<open>rotate\<close>.
\<close>

definition is_rotation :: "string list \<Rightarrow> string list \<Rightarrow> bool" where
  "is_rotation a b \<longleftrightarrow> b \<in> set (map (\<lambda>k. rotate k a) [0..<length a])"

text \<open>The ring that \<^verbatim>\<open>detect_cycles\<close> appends for a cycle.\<close>

definition cycle_ring :: "nat \<Rightarrow> string list \<Rightarrow> FraudRing" where
  "cycle_ring min_len cycle =
     \<lparr>ring_id = [], members = cycle, pattern_type = ''cycle'',
      ring_risk_score = real (60 + (length cycle - min_len) * 5),
      details = Cycle_details (length cycle)\<rparr>"

text \<open>
  What the dictionaries of account scores satisfy throughout: the keys are among the
  accounts \<open>S\<close>, an entry carries its key as \<^verbatim>\<open>account_id\<close>, and no score is
  negative.
\<close>

definition scores_ok :: "string set \<Rightarrow> scores \<Rightarrow> bool" where
  "scores_ok S sc \<longleftrightarrow>
     (\<forall>e \<in> set sc. fst e \<in> S \<and> account_id (snd e) = fst e \<and> 0 \<le> risk_score (snd e))"

text \<open>
  The parts of one iteration of a smurfing pass: the sorted timestamps of the edges of
  the node, the window \<open>(i, j)\<close> at which the scan stops, and the ring appended for it.
\<close>

definition sorted_timestamps :: "edge list \<Rightarrow> instant list" where
  "sorted_timestamps es = sort (map (\<lambda>e. e_timestamp (snd e)) es)"

definition smurf_window :: "edge list \<Rightarrow> int \<Rightarrow> int \<Rightarrow> (nat \<times> nat) option" where
  "smurf_window es fan_threshold window =
     (if int (length es) \<ge> fan_threshold
      then scan (sorted_timestamps es) window fan_threshold 0 0 else None)"

definition fan_in_ring :: "edge list \<Rightarrow> int \<Rightarrow> string \<Rightarrow> nat \<Rightarrow> nat \<Rightarrow> FraudRing" where
  "fan_in_ring incoming fan_threshold node i j =
     \<lparr>ring_id = [],
      members = py_set (py_set (map (\<lambda>k. fst (fst (incoming ! k))) [i..<j]) @ [node]),
      pattern_type = ''smurfing_fan_in'',
      ring_risk_score = real_of_int (70 + (int j - int i - fan_threshold) * 2),
      details = Fan_in_details node (int j - int i)\<rparr>"

definition fan_out_ring :: "edge list \<Rightarrow> int \<Rightarrow> string \<Rightarrow> nat \<Rightarrow> nat \<Rightarrow> FraudRing" where
  "fan_out_ring outgoing fan_threshold node i j =
     \<lparr>ring_id = [],
      members = py_set (py_set (map (\<lambda>k. snd (fst (outgoing ! k))) [i..<j]) @ [node]),
      pattern_type = ''smurfing_fan_out'',
      ring_risk_score = real_of_int (70 + (int j - int i - fan_threshold) * 2),
      details = Fan_out_details node (int j - int i)\<rparr>"

definition fan_in_emitted :: "digraph \<Rightarrow> int \<Rightarrow> int \<Rightarrow> string \<Rightarrow> FraudRing list" where
  "fan_in_emitted g fan_threshold window node =
     (case smurf_window (in_edges g node) fan_threshold window of
        None \<Rightarrow> []
      | Some (i, j) \<Rightarrow> [fan_in_ring (in_edges g node) fan_threshold node i j])"

definition fan_out_emitted :: "digraph \<Rightarrow> int \<Rightarrow> int \<Rightarrow> string \<Rightarrow> FraudRing list" where
  "fan_out_emitted g fan_threshold window node =
     (case smurf_window (out_edges g node) fan_threshold window of
        None \<Rightarrow> []
      | Some (i, j) \<Rightarrow> [fan_out_ring (out_edges g node) fan_threshold node i j])"

text \<open>
  The ring that the shell-chain detector appends for a path, the test under which it
  does so, and what its state satisfies throughout.
\<close>

definition shell_ring :: "string list \<Rightarrow> FraudRing" where
  "shell_ring path =
     \<lparr>ring_id = [], members = dict_fromkeys path, pattern_type = ''shell_chain'',
      ring_risk_score = real_of_int (50 + (int (length (butlast (tl path))) - 1) * 5),
      details = Shell_details path (butlast (tl path))\<rparr>"

definition shell_emits :: "digraph \<Rightarrow> nat \<Rightarrow> int \<Rightarrow> string list \<Rightarrow> bool" where
  "shell_emits g min_hops low path \<longleftrightarrow>
     length path - 1 \<ge> min_hops \<and> length path > 2 \<and> butlast (tl path) \<noteq> [] \<and>
     list_all (\<lambda>node. node \<in> set (low_activity_nodes g low)) (butlast (tl path))"

definition shell_ok :: "digraph \<Rightarrow> nat \<Rightarrow> int \<Rightarrow> shell_state \<Rightarrow> bool" where
  "shell_ok g min_hops low st \<longleftrightarrow>
     (\<forall>r \<in> set (fst st). \<exists>p. r = shell_ring p \<and> shell_emits g min_hops low p \<and>
        set p \<subseteq> set (g_nodes g)) \<and>
     scores_ok (set (g_nodes g)) (fst (snd st))"

text \<open>The rings of pattern type \<^verbatim>\<open>cycle\<close> of an output document.\<close>

definition cycle_rings :: "document \<Rightarrow> FraudRing list" where
  "cycle_rings doc = filter (\<lambda>r. pattern_type r = ''cycle'') (fraud_rings doc)"

text \<open>
  A batch with the two triangles A, B, C and A, C, B, and a list of its simple cycles
  as an enumerator may yield them.
\<close>

definition two_triangles :: "transaction list" where
  "two_triangles =
     [\<lparr>transaction_id = ''T1'', sender_id = ''A'', receiver_id = ''B'', amount = 100, timestamp = 0\<rparr>,
      \<lparr>transaction_id = ''T2'', sender_id = ''B'', receiver_id = ''C'', amount = 100, timestamp = 3600\<rparr>,
      \<lparr>transaction_id = ''T3'', sender_id = ''C'', receiver_id = ''A'', amount = 100, timestamp = 7200\<rparr>,
      \<lparr>transaction_id = ''T4'', sender_id = ''A'', receiver_id = ''C'', amount = 100, timestamp = 10800\<rparr>,
      \<lparr>transaction_id = ''T5'', sender_id = ''C'', receiver_id = ''B'', amount = 100, timestamp = 14400\<rparr>,
      \<lparr>transaction_id = ''T6'', sender_id = ''B'', receiver_id = ''A'', amount = 100, timestamp = 18000\<rparr>]"

definition two_triangles_cycles :: "digraph \<Rightarrow> string list list" where
  "two_triangles_cycles g =
     [[''B'', ''C'', ''A''], [''A'', ''C'', ''B''], [''A'', ''B''], [''B'', ''C''], [''A'', ''C'']]"



section \<open>Properties of the graph builder\<close>

lemma g_nodes_add_edge [simp]: "g_nodes (add_edge u v d g) = g_nodes g"
  by (simp add: add_edge_def)

lemma set_nodes_add_node [simp]: "set (g_nodes (add_node n g)) = insert n (set (g_nodes g))"
  by (auto simp: add_node_def)

lemma g_edges_add_node [simp]: "g_edges (add_node n g) = g_edges g"
  by (simp add: add_node_def)

lemma distinct_add_node: "distinct (g_nodes g) \<Longrightarrow> distinct (g_nodes (add_node n g))"
  by (simp add: add_node_def)

lemma keys_update: "fst ` set (AList.update k d al) = insert k (fst ` set al)"
  by (simp add: AList.dom_update)

lemma wf_add_row: "wf_graph g \<Longrightarrow> wf_graph (add_row g row)"
proof -
  assume wf: "wf_graph g"
  let ?g = "add_row g row"
  have keys: "fst ` set (g_edges ?g) = insert (sender_id row, receiver_id row) (fst ` set (g_edges g))"
    by (simp add: add_row_def add_edge_def keys_update)
  have nodes: "set (g_nodes ?g) = insert (receiver_id row) (insert (sender_id row) (set (g_nodes g)))"
    by (simp add: add_row_def)
  have "distinct (g_nodes ?g)"
    using wf by (simp add: add_row_def wf_graph_def distinct_add_node)
  moreover have "distinct (map fst (g_edges ?g))"
    using wf by (simp add: add_row_def add_edge_def wf_graph_def AList.distinct_update)
  moreover have "fst ` fst ` set (g_edges ?g) \<subseteq> set (g_nodes ?g)"
    using wf unfolding keys nodes wf_graph_def by auto
  moreover have "snd ` fst ` set (g_edges ?g) \<subseteq> set (g_nodes ?g)"
    using wf unfolding keys nodes wf_graph_def by auto
  ultimately show ?thesis
    unfolding wf_graph_def by blast
qed

lemma wf_foldl_add_row: "wf_graph g \<Longrightarrow> wf_graph (foldl add_row g df)"
  by (induction df arbitrary: g) (simp_all add: wf_add_row)

lemma wf_empty_graph: "wf_graph empty_graph"
  by (simp add: wf_graph_def empty_graph_def)

lemma wf_build_graph: "wf_graph (build_graph df)"
  unfolding build_graph_def by (rule wf_foldl_add_row [OF wf_empty_graph])

lemma g_edges_add_row:
  "g_edges (add_row g row) = AList.update (pair_of row) (edge_of row) (g_edges g)"
  by (simp add: add_row_def add_edge_def pair_of_def)

lemma keys_foldl_add_row:
  "fst ` set (g_edges (foldl add_row g df)) = fst ` set (g_edges g) \<union> pair_of ` set df"
  by (induction df arbitrary: g) (auto simp: g_edges_add_row keys_update)

lemma keys_build_graph: "fst ` set (g_edges (build_graph df)) = pair_of ` set df"
  by (simp add: build_graph_def keys_foldl_add_row empty_graph_def)

lemma distinct_keys_build_graph: "distinct (map fst (g_edges (build_graph df)))"
  using wf_build_graph [of df] by (simp add: wf_graph_def)

lemma map_of_foldl_add_row:
  "map_of (g_edges (foldl add_row g df)) k =
     (case find (\<lambda>row. pair_of row = k) (rev df) of
        None \<Rightarrow> map_of (g_edges g) k
      | Some row \<Rightarrow> Some (edge_of row))"
proof (induction df rule: rev_induct)
  case Nil
  show ?case by simp
next
  case (snoc row df)
  show ?case
    using snoc by (simp add: g_edges_add_row AList.update_conv')
qed

lemma map_of_build_graph:
  "map_of (g_edges (build_graph df)) k = map_option edge_of (find (\<lambda>row. pair_of row = k) (rev df))"
  by (simp add: build_graph_def map_of_foldl_add_row empty_graph_def split: option.split)

lemma length_filter_distinct_keys:
  assumes "distinct (map fst es)"
  shows "length (filter (\<lambda>e. P (fst e)) es) = card {k \<in> fst ` set es. P k}"
proof -
  have "map fst (filter (\<lambda>e. P (fst e)) es) = filter P (map fst es)"
    by (simp add: filter_map o_def)
  then have "length (filter (\<lambda>e. P (fst e)) es) = length (filter P (map fst es))"
    by (metis length_map)
  moreover have "length (filter P (map fst es)) = card (set (filter P (map fst es)))"
    by (rule distinct_card [symmetric, OF distinct_filter [OF assms]])
  moreover have "set (filter P (map fst es)) = {k \<in> fst ` set es. P k}"
    by auto
  ultimately show ?thesis by simp
qed

lemma in_degree_build_graph:
  "in_degree (build_graph df) n = length (remdups (map sender_id (filter (\<lambda>row. receiver_id row = n) df)))"
proof -
  let ?g = "build_graph df"
  have "in_degree ?g n = card {k \<in> fst ` set (g_edges ?g). snd k = n}"
    unfolding in_degree_def in_edges_def
    by (rule length_filter_distinct_keys [OF distinct_keys_build_graph])
  also have "{k \<in> fst ` set (g_edges ?g). snd k = n} =
      (\<lambda>s. (s, n)) ` set (map sender_id (filter (\<lambda>row. receiver_id row = n) df))"
    using keys_build_graph [of df] by (auto simp: pair_of_def image_iff)
  also have "card \<dots> = card (set (map sender_id (filter (\<lambda>row. receiver_id row = n) df)))"
    by (rule card_image) (simp add: inj_on_def)
  finally show ?thesis by (simp add: length_remdups_card_conv)
qed

lemma out_degree_build_graph:
  "out_degree (build_graph df) n = length (remdups (map receiver_id (filter (\<lambda>row. sender_id row = n) df)))"
proof -
  let ?g = "build_graph df"
  have "out_degree ?g n = card {k \<in> fst ` set (g_edges ?g). fst k = n}"
    unfolding out_degree_def out_edges_def
    by (rule length_filter_distinct_keys [OF distinct_keys_build_graph])
  also have "{k \<in> fst ` set (g_edges ?g). fst k = n} =
      (\<lambda>r. (n, r)) ` set (map receiver_id (filter (\<lambda>row. sender_id row = n) df))"
    using keys_build_graph [of df] by (auto simp: pair_of_def image_iff)
  also have "card \<dots> = card (set (map receiver_id (filter (\<lambda>row. sender_id row = n) df)))"
    by (rule card_image) (simp add: inj_on_def)
  finally show ?thesis by (simp add: length_remdups_card_conv)
qed

lemma length_filter_disjoint:
  "(\<And>x. x \<in> set xs \<Longrightarrow> \<not> (P x \<and> Q x)) \<Longrightarrow>
   length (filter P xs) + length (filter Q xs) = length (filter (\<lambda>x. P x \<or> Q x) xs)"
  by (induction xs) auto

lemma length_edges_view_aux:
  "distinct ns \<Longrightarrow>
   length (concat (map (\<lambda>n. filter (\<lambda>e. f e = n) es) ns)) = length (filter (\<lambda>e. f e \<in> set ns) es)"
proof (induction ns)
  case Nil
  show ?case by simp
next
  case (Cons n ns)
  have "length (filter (\<lambda>e. f e = n) es) + length (filter (\<lambda>e. f e \<in> set ns) es) =
      length (filter (\<lambda>e. f e = n \<or> f e \<in> set ns) es)"
    using Cons.prems by (intro length_filter_disjoint) auto
  then show ?case using Cons by (simp add: eq_commute [of n])
qed

lemma length_edges_view: "wf_graph g \<Longrightarrow> length (edges_view g) = length (g_edges g)"
proof -
  assume wf: "wf_graph g"
  then have "filter (\<lambda>e. fst (fst e) \<in> set (g_nodes g)) (g_edges g) = g_edges g"
    by (auto simp: wf_graph_def filter_id_conv)
  with wf show ?thesis
    unfolding edges_view_def out_edges_def wf_graph_def
    by (simp add: length_edges_view_aux)
qed

lemma set_edges_view: "wf_graph g \<Longrightarrow> set (edges_view g) = set (g_edges g)"
  unfolding edges_view_def out_edges_def wf_graph_def by auto

lemma distinct_edges_view:
  assumes "wf_graph g"
  shows "distinct (map fst (edges_view g))"
proof -
  have "card (set (map fst (edges_view g))) = length (map fst (edges_view g))"
    using assms set_edges_view [OF assms] length_edges_view [OF assms]
    by (simp add: wf_graph_def distinct_card [symmetric] del: set_map)
      (metis distinct_card length_map set_map)
  then show ?thesis by (rule card_distinct)
qed

lemma graph_edges_detect:
  "graph_edges (detect_all_patterns simple_cycles df) = edges_view (build_graph df)"
  by (simp add: detect_all_patterns_def Let_def)

text \<open>
  Claim C9.  The graph that \<^verbatim>\<open>build_graph\<close> returns has at most one edge per ordered
  pair (sender, receiver); the edge of a pair carries the transaction id, amount and
  timestamp of the last row of the batch with that pair (and there is no edge for a
  pair without a row); the in-degree of a node is the number of distinct senders of the
  rows sent to it, and its out-degree the number of distinct receivers of the rows it
  sends, however many transactions there are.
\<close>

theorem build_graph_collapses_parallel_rows:
  "distinct (map fst (g_edges (build_graph df))) \<and>
   map_of (g_edges (build_graph df)) (s, r) =
     map_option
       (\<lambda>row. \<lparr>e_transaction_id = transaction_id row, e_amount = amount row,
          e_timestamp = timestamp row\<rparr>)
       (find (\<lambda>row. sender_id row = s \<and> receiver_id row = r) (rev df)) \<and>
   in_degree (build_graph df) n =
     length (remdups (map sender_id (filter (\<lambda>row. receiver_id row = n) df))) \<and>
   out_degree (build_graph df) n =
     length (remdups (map receiver_id (filter (\<lambda>row. sender_id row = n) df)))"
proof -
  have "map_of (g_edges (build_graph df)) (s, r) =
      map_option
        (\<lambda>row. \<lparr>e_transaction_id = transaction_id row, e_amount = amount row,
           e_timestamp = timestamp row\<rparr>)
        (find (\<lambda>row. sender_id row = s \<and> receiver_id row = r) (rev df))"
    using map_of_build_graph [of df "(s, r)"]
    by (simp add: edge_of_def pair_of_def fun_eq_iff cong: map_option_cong)
  then show ?thesis
    by (simp only: distinct_keys_build_graph in_degree_build_graph out_degree_build_graph
        simp_thms)
qed

text \<open>
  Claim C1, as stated, would give the output as many edge records as the batch has
  rows.  Two rows from A to B give one edge record.
\<close>

theorem one_edge_per_row_counterexample:
  "length (graph_edges (detect_all_patterns (\<lambda>g. [])
      [\<lparr>transaction_id = ''T1'', sender_id = ''A'', receiver_id = ''B'', amount = 100,
         timestamp = 0\<rparr>,
       \<lparr>transaction_id = ''T2'', sender_id = ''A'', receiver_id = ''B'', amount = 250,
         timestamp = 3600\<rparr>])) = 1"
  by (simp add: graph_edges_detect build_graph_def add_row_def add_edge_def add_node_def
      empty_graph_def edge_of_def edges_view_def out_edges_def)

text \<open>
  Claim C1, amended.  For every batch, whatever the cycle enumerator yields, the edge
  records of the output are one per distinct ordered pair (sender, receiver) of the
  batch: their number is the number of distinct pairs, no two of them have the same
  source and target, and their (source, target) pairs are those of the rows.
\<close>

theorem one_edge_per_ordered_pair:
  "length (graph_edges (detect_all_patterns simple_cycles df)) = length (remdups (map pair_of df)) \<and>
   distinct (map fst (graph_edges (detect_all_patterns simple_cycles df))) \<and>
   set (map fst (graph_edges (detect_all_patterns simple_cycles df))) = set (map pair_of df)"
proof -
  let ?g = "build_graph df"
  have wf: "wf_graph ?g" by (rule wf_build_graph)
  have "length (g_edges ?g) = card (fst ` set (g_edges ?g))"
    using distinct_keys_build_graph [of df] distinct_card [of "map fst (g_edges ?g)"]
    by simp
  then have "length (edges_view ?g) = length (remdups (map pair_of df))"
    by (simp add: length_edges_view [OF wf] keys_build_graph length_remdups_card_conv)
  moreover have "distinct (map fst (edges_view ?g))"
    by (rule distinct_edges_view [OF wf])
  moreover have "set (map fst (edges_view ?g)) = set (map pair_of df)"
    by (simp add: set_edges_view [OF wf] keys_build_graph)
  ultimately show ?thesis
    by (simp only: graph_edges_detect simp_thms)
qed

section \<open>Properties of the result assembler\<close>

lemma assign_ring_ids_fold:
  "assign_ring_ids rings = fold id_step (zip [1..<Suc (length rings)] (sorted_positions rings)) rings"
  by (simp add: assign_ring_ids_def id_step_def)

lemma length_id_step [simp]: "length (id_step p rs) = length rs"
  by (cases p) (simp add: id_step_def)

lemma length_fold_id_step [simp]: "length (fold id_step ps rs) = length rs"
  by (induction ps arbitrary: rs) simp_all

lemma strip_id_step: "map strip_id (id_step p rs) = map strip_id rs"
proof (cases p)
  case (Pair i k)
  have "(map strip_id rs)[k := strip_id (rs ! k)] = map strip_id rs"
    by (cases "k < length rs") (simp_all add: list_update_same_conv list_update_beyond)
  then show ?thesis
    by (simp add: Pair id_step_def map_update strip_id_def)
qed

lemma strip_fold_id_step: "map strip_id (fold id_step ps rs) = map strip_id rs"
  by (induction ps arbitrary: rs) (simp_all add: strip_id_step)

lemma strip_assign_ring_ids: "map strip_id (assign_ring_ids rings) = map strip_id rings"
  by (simp add: assign_ring_ids_fold strip_fold_id_step)

lemma length_assign_ring_ids [simp]: "length (assign_ring_ids rings) = length rings"
  by (simp add: assign_ring_ids_fold)

lemma nth_id_step_other: "k \<noteq> snd p \<Longrightarrow> id_step p rs ! k = rs ! k"
  by (cases p) (simp add: id_step_def)

lemma nth_fold_id_step_other: "k \<notin> snd ` set ps \<Longrightarrow> fold id_step ps rs ! k = rs ! k"
  by (induction ps arbitrary: rs) (auto simp: nth_id_step_other)

lemma ids_fold_id_step:
  "distinct ks \<Longrightarrow> length ns = length ks \<Longrightarrow> set ks \<subseteq> {..<length rs} \<Longrightarrow>
   map (\<lambda>k. ring_id (fold id_step (zip ns ks) rs ! k)) ks = map format_ring_id ns"
proof (induction ks arbitrary: ns rs)
  case Nil
  then show ?case by simp
next
  case (Cons k ks)
  then obtain n ns' where ns: "ns = n # ns'" by (cases ns) auto
  let ?rs = "id_step (n, k) rs"
  have k: "k < length rs" using Cons.prems by simp
  have "k \<notin> snd ` set (zip ns' ks)"
    using Cons.prems(1) by (auto dest: set_zip_rightD)
  then have "fold id_step (zip ns' ks) ?rs ! k = ?rs ! k"
    by (rule nth_fold_id_step_other)
  then have head: "ring_id (fold id_step (zip ns' ks) ?rs ! k) = format_ring_id n"
    using k by (simp add: id_step_def)
  have "map (\<lambda>k. ring_id (fold id_step (zip ns' ks) ?rs ! k)) ks = map format_ring_id ns'"
    using Cons.prems by (intro Cons.IH) (auto simp: ns)
  with head show ?case by (simp add: ns)
qed

lemma sorted_positions_perm:
  "set (sorted_positions rings) = {..<length rings} \<and> distinct (sorted_positions rings) \<and>
   length (sorted_positions rings) = length rings"
  by (auto simp: sorted_positions_def)

lemma insort_key_cong:
  "f x = g x \<Longrightarrow> (\<And>y. y \<in> set ys \<Longrightarrow> f y = g y) \<Longrightarrow> insort_key f x ys = insort_key g x ys"
  by (induction ys) simp_all

lemma sort_key_cong_set:
  "(\<And>x. x \<in> set xs \<Longrightarrow> f x = g x) \<Longrightarrow> sort_key f xs = sort_key g xs"
proof (induction xs)
  case Nil
  show ?case by simp
next
  case (Cons x xs)
  then have "sort_key f xs = sort_key g xs" by simp
  moreover have "insort_key f x (sort_key g xs) = insort_key g x (sort_key g xs)"
    using Cons.prems by (intro insort_key_cong) simp_all
  ultimately show ?case by simp
qed

lemma sorted_positions_strip:
  "map strip_id rs' = map strip_id rs \<Longrightarrow> sorted_positions rs' = sorted_positions rs"
proof -
  assume eq: "map strip_id rs' = map strip_id rs"
  then have len: "length rs' = length rs" by (metis length_map)
  have "ring_risk_score (rs' ! k) = ring_risk_score (rs ! k)" if "k < length rs" for k
  proof -
    have "strip_id (rs' ! k) = strip_id (rs ! k)"
      using eq that len by (metis nth_map)
    then show ?thesis
      by (metis FraudRing.select_convs(4) FraudRing.surjective FraudRing.update_convs(1) strip_id_def)
  qed
  then have "sort_key (\<lambda>k. - ring_risk_score (rs' ! k)) [0..<length rs] =
      sort_key (\<lambda>k. - ring_risk_score (rs ! k)) [0..<length rs]"
    by (intro sort_key_cong_set) auto
  then show ?thesis by (simp add: sorted_positions_def len)
qed

lemma ids_in_rank_order:
  "map (\<lambda>k. ring_id (assign_ring_ids rings ! k)) (sorted_positions rings) =
     map format_ring_id [1..<Suc (length rings)]"
  unfolding assign_ring_ids_fold
  by (rule ids_fold_id_step) (simp_all add: sorted_positions_perm del: upt_Suc)

lemma scores_descending:
  "sorted (map (\<lambda>k. - ring_risk_score (rings ! k)) (sorted_positions rings))"
  by (simp add: sorted_positions_def)

lemma digit_value_digit: "d < 10 \<Longrightarrow> digit_value (''0123456789'' ! d) = d"
proof -
  assume "d < 10"
  then have "d \<in> {0, 1, 2, 3, 4, 5, 6, 7, 8, 9}" by auto
  then show ?thesis by (auto simp: digit_value_def)
qed

lemma decimal_value_snoc: "decimal_value (s @ [c]) = 10 * decimal_value s + digit_value c"
  by (simp add: decimal_value_def)

lemma decimal_value_decimal: "decimal_value (decimal n) = n"
proof (induction n rule: decimal.induct)
  case (1 n)
  show ?case
  proof (cases "n < 10")
    case True
    then show ?thesis
      by (subst decimal.simps) (simp add: decimal_value_def digit_value_digit)
  next
    case False
    then have "decimal_value (decimal (n div 10)) = n div 10"
      using 1 by simp
    with False show ?thesis
      by (subst decimal.simps) (simp add: decimal_value_snoc digit_value_digit)
  qed
qed

lemma decimal_value_pad: "decimal_value (replicate k CHR ''0'' @ s) = decimal_value s"
proof -
  have "foldl (\<lambda>a c. 10 * a + digit_value c) 0 (replicate k CHR ''0'') = 0"
    by (induction k) (simp_all add: digit_value_def)
  then show ?thesis by (simp add: decimal_value_def)
qed

lemma format_ring_id_inj: "format_ring_id i = format_ring_id j \<Longrightarrow> i = j"
proof -
  assume "format_ring_id i = format_ring_id j"
  then have "decimal_value (tl (format_ring_id i)) = decimal_value (tl (format_ring_id j))"
    by simp
  then show ?thesis
    by (simp add: format_ring_id_def decimal_value_pad decimal_value_decimal)
qed

lemma distinct_ids: "distinct (map ring_id (assign_ring_ids rings))"
proof -
  let ?out = "assign_ring_ids rings" and ?ps = "sorted_positions rings"
  have "distinct (map format_ring_id [1..<Suc (length rings)])"
    by (simp add: distinct_map inj_on_def del: upt_Suc) (blast dest: format_ring_id_inj)
  then have d: "distinct (map (\<lambda>k. ring_id (?out ! k)) ?ps)"
    by (simp only: ids_in_rank_order)
  then have "inj_on (\<lambda>k. ring_id (?out ! k)) (set ?ps)"
    by (simp add: distinct_map)
  then have "distinct (map (\<lambda>k. ring_id (?out ! k)) [0..<length rings])"
    by (simp add: distinct_map sorted_positions_perm lessThan_atLeast0)
  moreover have "map ring_id ?out = map (\<lambda>k. ring_id (?out ! k)) [0..<length rings]"
    by (intro nth_equalityI) simp_all
  ultimately show ?thesis by simp
qed


lemma fraud_rings_detect:
  "fraud_rings (detect_all_patterns simple_cycles df) = assign_ring_ids (detected_rings simple_cycles df)"
  by (simp add: detect_all_patterns_def detected_rings_def Let_def)


lemma sorted_positions_assign: "sorted_positions (assign_ring_ids rings) = sorted_positions rings"
  by (rule sorted_positions_strip [OF strip_assign_ring_ids])

lemma decimal_nonempty: "decimal n \<noteq> []"
  by (subst decimal.simps) simp

lemma digit_in_digits: "d < 10 \<Longrightarrow> ''0123456789'' ! d \<in> set ''0123456789''"
  by (rule nth_mem) simp

lemma set_decimal: "set (decimal n) \<subseteq> set ''0123456789''"
proof -
  define D where "D = set ''0123456789''"
  have digit: "''0123456789'' ! d \<in> D" if "d < 10" for d
    unfolding D_def using that by (rule digit_in_digits)
  have "set (decimal n) \<subseteq> D"
  proof (induction n rule: decimal.induct)
    case (1 n)
    show ?case
    proof (cases "n < 10")
      case True
      then have "decimal n = [''0123456789'' ! n]" by (subst decimal.simps) simp
      with digit [OF True] show ?thesis by simp
    next
      case False
      then have eq: "decimal n = decimal (n div 10) @ [''0123456789'' ! (n mod 10)]"
        by (subst decimal.simps) simp
      have "''0123456789'' ! (n mod 10) \<in> D"
        by (rule digit) simp
      with 1 False show ?thesis unfolding eq by simp
    qed
  qed
  then show ?thesis by (simp only: D_def)
qed

lemma digit_not_zero: "0 < d \<Longrightarrow> d < 10 \<Longrightarrow> ''0123456789'' ! d \<noteq> CHR ''0''"
proof -
  assume "0 < d" "d < 10"
  then have "d \<in> {1, 2, 3, 4, 5, 6, 7, 8, 9}" by auto
  then show ?thesis by auto
qed

lemma hd_decimal: "0 < n \<Longrightarrow> hd (decimal n) \<noteq> CHR ''0''"
proof (induction n rule: decimal.induct)
  case (1 n)
  show ?case
  proof (cases "n < 10")
    case True
    then have "decimal n = [''0123456789'' ! n]" by (subst decimal.simps) simp
    with digit_not_zero [OF "1.prems" True] show ?thesis by simp
  next
    case False
    then have eq: "decimal n = decimal (n div 10) @ [''0123456789'' ! (n mod 10)]"
      by (subst decimal.simps) simp
    from False have "0 < n div 10" by simp
    with 1 False have "hd (decimal (n div 10)) \<noteq> CHR ''0''" by simp
    then show ?thesis unfolding eq by (simp add: decimal_nonempty)
  qed
qed

lemma length_decimal_one: "n < 10 \<Longrightarrow> length (decimal n) = 1"
  by (subst decimal.simps) simp

lemma length_decimal_bound: "0 < k \<Longrightarrow> n < 10 ^ k \<Longrightarrow> length (decimal n) \<le> k"
proof (induction k arbitrary: n)
  case 0
  then show ?case by simp
next
  case (Suc k)
  show ?case
  proof (cases "n < 10")
    case True
    then show ?thesis by (simp add: length_decimal_one)
  next
    case False
    then have eq: "decimal n = decimal (n div 10) @ [''0123456789'' ! (n mod 10)]"
      by (subst decimal.simps) simp
    from False Suc.prems have k: "0 < k" by (cases k) simp_all
    from Suc.prems have "n div 10 < 10 ^ k"
      by (simp add: less_mult_imp_div_less mult.commute)
    from Suc.IH [OF k this] show ?thesis unfolding eq by simp
  qed
qed

lemma format_ring_id_shape:
  "hd (format_ring_id i) = CHR ''R'' \<and>
   decimal_value (tl (format_ring_id i)) = i \<and>
   set (tl (format_ring_id i)) \<subseteq> set ''0123456789'' \<and>
   4 \<le> length (tl (format_ring_id i)) \<and>
   (i < 10000 \<longrightarrow> length (tl (format_ring_id i)) = 4) \<and>
   (4 < length (tl (format_ring_id i)) \<longrightarrow> hd (tl (format_ring_id i)) \<noteq> CHR ''0'')"
proof -
  let ?d = "decimal i"
  have tl: "tl (format_ring_id i) = replicate (4 - length ?d) CHR ''0'' @ ?d"
    by (simp add: format_ring_id_def)
  have "decimal_value (tl (format_ring_id i)) = i"
    by (simp add: tl decimal_value_pad decimal_value_decimal)
  moreover have "set (tl (format_ring_id i)) \<subseteq> set ''0123456789''"
  proof -
    have "CHR ''0'' \<in> set ''0123456789''" by simp
    then have "set (replicate (4 - length ?d) CHR ''0'') \<subseteq> set ''0123456789''"
      by (metis empty_subsetI insert_subset set_replicate_conv_if)
    then show ?thesis
      unfolding tl set_append using set_decimal [of i] by (rule Un_least)
  qed
  moreover have "4 \<le> length (tl (format_ring_id i))"
    by (simp add: tl)
  moreover have "length (tl (format_ring_id i)) = 4" if "i < 10000"
    using length_decimal_bound [of 4 i] that by (simp add: tl)
  moreover have "hd (tl (format_ring_id i)) \<noteq> CHR ''0''" if "4 < length (tl (format_ring_id i))"
  proof -
    from that have long: "4 < length ?d" by (simp add: tl)
    then have "\<not> i < 10" using length_decimal_one [of i] by auto
    then have "hd ?d \<noteq> CHR ''0''" by (intro hd_decimal) simp
    with long show ?thesis by (simp add: tl)
  qed
  ultimately show ?thesis by (simp add: format_ring_id_def)
qed

lemma id_at_rank_assign:
  assumes "m < length rings"
  shows "id_at_rank (assign_ring_ids rings) m = format_ring_id (Suc m)"
proof -
  have "map (\<lambda>k. ring_id (assign_ring_ids rings ! k)) (sorted_positions rings) ! m =
      map format_ring_id [1..<Suc (length rings)] ! m"
    by (simp only: ids_in_rank_order)
  moreover have "length (sorted_positions rings) = length rings"
    using sorted_positions_perm [of rings] by simp
  ultimately show ?thesis
    using assms by (simp add: id_at_rank_def sorted_positions_assign nth_append del: upt_Suc)
qed


text \<open>
  Claim C8, as stated, would have the list \<^verbatim>\<open>fraud_rings\<close> in descending order of
  \<^verbatim>\<open>risk_score\<close> with identifiers R0001, R0002, R0003 in list order.  For four
  transfers along the path A, B, C, D, E there are no cycles, and the shell chains
  emitted are A-B-C-D (55), A-B-C-D-E (60) and B-C-D-E (55), in this order.
\<close>

theorem rings_sorted_counterexample:
  "map ring_risk_score (fraud_rings (detect_all_patterns (\<lambda>g. []) chain5)) = [55, 60, 55] \<and>
   map ring_id (fraud_rings (detect_all_patterns (\<lambda>g. []) chain5)) =
     [''R0002'', ''R0001'', ''R0003'']"
  by code_simp

text \<open>
  Claim C8, amended.  For every batch, the list \<^verbatim>\<open>fraud_rings\<close> is the list of the
  detected rings in detection order (cycles, then smurfing rings, then shell chains),
  changed in the identifiers only.  Read in the order of descending \<^verbatim>\<open>risk_score\<close>
  (the positions \<open>sorted_positions\<close>: a permutation of the positions of the list, along
  which the scores do not increase, and which keeps rings of equal score in list
  order), the identifiers are R0001, R0002, ... up to the number of rings.  The
  identifier of the ring of rank \<open>m\<close> (counted from 0) is the letter R followed by
  decimal digits only, which denote the number \<open>m + 1\<close>; there are at least four
  digits, exactly four when \<open>m + 1 < 10000\<close>, and more than four only without a leading
  zero.  No two rings have the same identifier.
\<close>

theorem ring_ids_follow_rank:
  "map strip_id (fraud_rings (detect_all_patterns simple_cycles df)) =
     map strip_id (detected_rings simple_cycles df) \<and>
   map (\<lambda>k. ring_id (fraud_rings (detect_all_patterns simple_cycles df) ! k))
     (sorted_positions (fraud_rings (detect_all_patterns simple_cycles df))) =
     map format_ring_id [1..<Suc (length (fraud_rings (detect_all_patterns simple_cycles df)))] \<and>
   set (sorted_positions (fraud_rings (detect_all_patterns simple_cycles df))) =
     {..<length (fraud_rings (detect_all_patterns simple_cycles df))} \<and>
   distinct (sorted_positions (fraud_rings (detect_all_patterns simple_cycles df))) \<and>
   sorted (map (\<lambda>k. - ring_risk_score (fraud_rings (detect_all_patterns simple_cycles df) ! k))
     (sorted_positions (fraud_rings (detect_all_patterns simple_cycles df)))) \<and>
   (\<forall>c. sorted (filter
       (\<lambda>k. - ring_risk_score (fraud_rings (detect_all_patterns simple_cycles df) ! k) = c)
       (sorted_positions (fraud_rings (detect_all_patterns simple_cycles df))))) \<and>
   distinct (map ring_id (fraud_rings (detect_all_patterns simple_cycles df))) \<and>
   (\<forall>m < length (fraud_rings (detect_all_patterns simple_cycles df)).
      hd (id_at_rank (fraud_rings (detect_all_patterns simple_cycles df)) m) = CHR ''R'' \<and>
      decimal_value (tl (id_at_rank (fraud_rings (detect_all_patterns simple_cycles df)) m)) =
        Suc m \<and>
      set (tl (id_at_rank (fraud_rings (detect_all_patterns simple_cycles df)) m))
        \<subseteq> set ''0123456789'' \<and>
      4 \<le> length (tl (id_at_rank (fraud_rings (detect_all_patterns simple_cycles df)) m)) \<and>
      (Suc m < 10000 \<longrightarrow>
        length (tl (id_at_rank (fraud_rings (detect_all_patterns simple_cycles df)) m)) = 4) \<and>
      (4 < length (tl (id_at_rank (fraud_rings (detect_all_patterns simple_cycles df)) m)) \<longrightarrow>
        hd (tl (id_at_rank (fraud_rings (detect_all_patterns simple_cycles df)) m)) \<noteq> CHR ''0''))"
proof -
  let ?rings = "detected_rings simple_cycles df"
  let ?out = "assign_ring_ids ?rings"
  have pos: "sorted_positions ?out = sorted_positions ?rings"
    by (rule sorted_positions_assign)
  have shape: "hd (id_at_rank ?out m) = CHR ''R'' \<and>
      decimal_value (tl (id_at_rank ?out m)) = Suc m \<and>
      set (tl (id_at_rank ?out m)) \<subseteq> set ''0123456789'' \<and>
      4 \<le> length (tl (id_at_rank ?out m)) \<and>
      (Suc m < 10000 \<longrightarrow> length (tl (id_at_rank ?out m)) = 4) \<and>
      (4 < length (tl (id_at_rank ?out m)) \<longrightarrow> hd (tl (id_at_rank ?out m)) \<noteq> CHR ''0'')"
    if "m < length ?out" for m
  proof -
    from that have "id_at_rank ?out m = format_ring_id (Suc m)"
      by (simp add: id_at_rank_assign)
    with format_ring_id_shape [of "Suc m"] show ?thesis
      by presburger
  qed
  have "map strip_id ?out = map strip_id ?rings"
    by (rule strip_assign_ring_ids)
  moreover have "map (\<lambda>k. ring_id (?out ! k)) (sorted_positions ?out) =
      map format_ring_id [1..<Suc (length ?out)]"
    using ids_in_rank_order [of ?rings] by (simp add: pos del: upt_Suc)
  moreover have "set (sorted_positions ?out) = {..<length ?out}"
    using sorted_positions_perm [of ?out] by simp
  moreover have "distinct (sorted_positions ?out)"
    using sorted_positions_perm [of ?out] by simp
  moreover have "sorted (map (\<lambda>k. - ring_risk_score (?out ! k)) (sorted_positions ?out))"
    by (rule scores_descending)
  moreover have "sorted (filter (\<lambda>k. - ring_risk_score (?out ! k) = c) (sorted_positions ?out))"
    for c
    unfolding sorted_positions_def
    by (simp only: sort_key_stable) (rule sorted_filter [where f = "\<lambda>k. k", simplified], simp)
  moreover have "distinct (map ring_id ?out)"
    by (rule distinct_ids)
  moreover have "\<forall>m < length ?out.
      hd (id_at_rank ?out m) = CHR ''R'' \<and>
      decimal_value (tl (id_at_rank ?out m)) = Suc m \<and>
      set (tl (id_at_rank ?out m)) \<subseteq> set ''0123456789'' \<and>
      4 \<le> length (tl (id_at_rank ?out m)) \<and>
      (Suc m < 10000 \<longrightarrow> length (tl (id_at_rank ?out m)) = 4) \<and>
      (4 < length (tl (id_at_rank ?out m)) \<longrightarrow> hd (tl (id_at_rank ?out m)) \<noteq> CHR ''0'')"
    using shape by blast
  ultimately show ?thesis
    by (simp only: fraud_rings_detect simp_thms)
qed

text \<open>
  The theorem at the batch \<open>chain5\<close>: three rings, the second of the list first in
  rank, and its identifier is R0001.
\<close>

theorem ring_ids_follow_rank_witness:
  "length (fraud_rings (detect_all_patterns (\<lambda>g. []) chain5)) = 3 \<and>
   sorted_positions (fraud_rings (detect_all_patterns (\<lambda>g. []) chain5)) = [1, 0, 2] \<and>
   id_at_rank (fraud_rings (detect_all_patterns (\<lambda>g. []) chain5)) 0 = ''R0001'' \<and>
   hd (id_at_rank (fraud_rings (detect_all_patterns (\<lambda>g. []) chain5)) 0) = CHR ''R'' \<and>
   decimal_value (tl (id_at_rank (fraud_rings (detect_all_patterns (\<lambda>g. []) chain5)) 0)) = 1 \<and>
   length (tl (id_at_rank (fraud_rings (detect_all_patterns (\<lambda>g. []) chain5)) 0)) = 4"
proof -
  let ?out = "fraud_rings (detect_all_patterns (\<lambda>g. []) chain5)"
  have len: "length ?out = 3" by code_simp
  have pos: "sorted_positions ?out = [1, 0, 2]" by code_simp
  have id0: "id_at_rank ?out 0 = ''R0001''" by code_simp
  note shape = ring_ids_follow_rank [of "\<lambda>g. []" chain5, THEN conjunct2, THEN conjunct2,
      THEN conjunct2, THEN conjunct2, THEN conjunct2, THEN conjunct2, THEN conjunct2,
      rule_format, of 0]
  from len have "0 < length ?out" by simp
  from shape [OF this] have
    "hd (id_at_rank ?out 0) = CHR ''R'' \<and> decimal_value (tl (id_at_rank ?out 0)) = 1 \<and>
     length (tl (id_at_rank ?out 0)) = 4"
    by simp
  with len pos id0 show ?thesis by simp
qed

section \<open>Properties of the cycle detector\<close>

lemma rotated_variants_rotate:
  "rotated_variants c = map (\<lambda>i. rotate i c) [0..<length c]"
  unfolding rotated_variants_def by (rule map_cong) (simp_all add: rotate_drop_take)

lemma set_rotated_variants:
  assumes "c \<noteq> []"
  shows "set (rotated_variants c) = range (\<lambda>k. rotate k c)"
proof
  show "set (rotated_variants c) \<subseteq> range (\<lambda>k. rotate k c)"
    by (auto simp: rotated_variants_rotate)
next
  show "range (\<lambda>k. rotate k c) \<subseteq> set (rotated_variants c)"
  proof
    fix x assume "x \<in> range (\<lambda>k. rotate k c)"
    then obtain k where "x = rotate k c" by auto
    then have "x = rotate (k mod length c) c" by (simp add: rotate_conv_mod [symmetric])
    moreover have "k mod length c < length c" using assms by simp
    ultimately show "x \<in> set (rotated_variants c)"
      unfolding rotated_variants_rotate by (auto simp: image_iff)
  qed
qed

lemma is_rotation_variants: "is_rotation a b \<longleftrightarrow> b \<in> set (rotated_variants a)"
  by (simp only: is_rotation_def rotated_variants_rotate)

lemma is_rotation_rotate: "a \<noteq> [] \<Longrightarrow> is_rotation a b \<longleftrightarrow> (\<exists>k. b = rotate k a)"
  by (auto simp: is_rotation_variants set_rotated_variants)

lemma rotation_same_variants:
  assumes "a \<noteq> []" "is_rotation a b"
  shows "set (rotated_variants b) = set (rotated_variants a)"
proof -
  from assms obtain k where b: "b = rotate k a" by (auto simp: is_rotation_rotate)
  then have bne: "b \<noteq> []" using assms by simp
  let ?n = "length a"
  have "b = rotate (k mod ?n) a"
    unfolding b by (rule rotate_conv_mod)
  then have "rotate (?n - k mod ?n) b = rotate (?n - k mod ?n + k mod ?n) a"
    by (simp only: rotate_rotate)
  also have "?n - k mod ?n + k mod ?n = ?n"
    using assms(1) by (simp add: less_imp_le)
  finally have a: "a = rotate (?n - k mod ?n) b" by simp
  have "range (\<lambda>m. rotate m b) = range (\<lambda>m. rotate m a)"
  proof (intro equalityI subsetI)
    fix x assume "x \<in> range (\<lambda>m. rotate m b)"
    then obtain m where "x = rotate m b" by auto
    then have "x = rotate (m + k) a" by (simp add: b rotate_rotate)
    then show "x \<in> range (\<lambda>m. rotate m a)" by blast
  next
    fix x assume "x \<in> range (\<lambda>m. rotate m a)"
    then obtain m where "x = rotate m a" by auto
    then have "x = rotate (m + (?n - k mod ?n)) b"
      using a by (metis rotate_rotate)
    then show "x \<in> range (\<lambda>m. rotate m b)" by blast
  qed
  then show ?thesis by (simp add: set_rotated_variants assms(1) bne)
qed

lemma rotation_same_key: "a \<noteq> [] \<Longrightarrow> is_rotation a b \<Longrightarrow> cycle_key b = cycle_key a"
  by (simp add: cycle_key_def rotation_same_variants)

lemma cycles_loop_keys:
  "distinct (map (\<lambda>r. cycle_key (members r)) rings) \<Longrightarrow>
   (\<lambda>r. cycle_key (members r)) ` set rings \<subseteq> set seen \<Longrightarrow>
   distinct (map (\<lambda>r. cycle_key (members r)) (cycles_loop min_len max_len cs seen rings))"
proof (induction cs arbitrary: seen rings)
  case Nil
  then show ?case by simp
next
  case (Cons c cs)
  show ?case
  proof (cases "min_len \<le> length c \<and> length c \<le> max_len \<and> cycle_key c \<notin> set seen")
    case True
    let ?rings = "rings @ [cycle_ring min_len c]"
    have "distinct (map (\<lambda>r. cycle_key (members r)) ?rings)"
      using Cons.prems True by (auto simp: cycle_ring_def)
    moreover have "(\<lambda>r. cycle_key (members r)) ` set ?rings \<subseteq> set (cycle_key c # seen)"
      using Cons.prems by (auto simp: cycle_ring_def)
    ultimately have "distinct (map (\<lambda>r. cycle_key (members r))
        (cycles_loop min_len max_len cs (cycle_key c # seen) ?rings))"
      by (rule Cons.IH)
    with True show ?thesis by (simp add: Let_def cycle_ring_def)
  next
    case False
    then have "cycles_loop min_len max_len (c # cs) seen rings =
        cycles_loop min_len max_len cs seen rings"
      by (auto simp: Let_def)
    with Cons show ?thesis by simp
  qed
qed

lemma cycles_loop_rings:
  "r \<in> set (cycles_loop min_len max_len cs seen rings) \<Longrightarrow>
   r \<in> set rings \<or>
   (\<exists>c \<in> set cs. min_len \<le> length c \<and> length c \<le> max_len \<and> r = cycle_ring min_len c)"
proof (induction cs arbitrary: seen rings)
  case Nil
  then show ?case by simp
next
  case (Cons c cs)
  show ?case
  proof (cases "min_len \<le> length c \<and> length c \<le> max_len \<and> cycle_key c \<notin> set seen")
    case True
    then have "r \<in> set (cycles_loop min_len max_len cs (cycle_key c # seen)
        (rings @ [cycle_ring min_len c]))"
      using Cons.prems by (simp add: Let_def cycle_ring_def)
    from Cons.IH [OF this] True show ?thesis by auto
  next
    case False
    then have "cycles_loop min_len max_len (c # cs) seen rings =
        cycles_loop min_len max_len cs seen rings"
      by (auto simp: Let_def)
    then have "r \<in> set (cycles_loop min_len max_len cs seen rings)"
      using Cons.prems by simp
    from Cons.IH [OF this] show ?thesis by auto
  qed
qed

lemma detect_cycles_rings:
  "r \<in> set (detect_cycles cs min_len max_len) \<Longrightarrow>
   \<exists>c \<in> set cs. min_len \<le> length c \<and> length c \<le> max_len \<and> r = cycle_ring min_len c"
  unfolding detect_cycles_def by (drule cycles_loop_rings) simp

lemma detect_cycles_keys:
  "distinct (map (\<lambda>r. cycle_key (members r)) (detect_cycles cs min_len max_len))"
  unfolding detect_cycles_def by (rule cycles_loop_keys) simp_all

section \<open>Properties of the account score dictionaries\<close>

lemma scores_ok_Nil: "scores_ok S []"
  by (simp add: scores_ok_def)

lemma keys_ensure: "fst ` set (ensure k sc) = insert k (fst ` set sc)"
  by (auto simp: ensure_def)

lemma scores_ok_ensure: "k \<in> S \<Longrightarrow> scores_ok S sc \<Longrightarrow> scores_ok S (ensure k sc)"
  by (auto simp: ensure_def scores_ok_def)

lemma set_map_entry: "e \<in> set (AList.map_entry k f sc) \<Longrightarrow> e \<in> set sc \<or> (\<exists>a. (k, a) \<in> set sc \<and> e = (k, f a))"
  by (induction sc) (auto split: if_splits)

lemma scores_ok_map_entry:
  assumes "scores_ok S sc"
    and "\<And>a. account_id (f a) = account_id a"
    and "\<And>a. 0 \<le> risk_score a \<Longrightarrow> 0 \<le> risk_score (f a)"
  shows "scores_ok S (AList.map_entry k f sc)"
  unfolding scores_ok_def
proof
  fix e assume "e \<in> set (AList.map_entry k f sc)"
  then consider "e \<in> set sc" | a where "(k, a) \<in> set sc" "e = (k, f a)"
    by (auto dest: set_map_entry)
  then show "fst e \<in> S \<and> account_id (snd e) = fst e \<and> 0 \<le> risk_score (snd e)"
  proof cases
    case 1
    with assms(1) show ?thesis by (simp add: scores_ok_def)
  next
    case 2
    with assms(1) have "k \<in> S \<and> account_id a = k \<and> 0 \<le> risk_score a"
      by (auto simp: scores_ok_def)
    with 2 assms(2,3) show ?thesis by simp
  qed
qed

lemma keys_add_reason: "fst ` set (add_reason k x w sc) = insert k (fst ` set sc)"
  by (simp add: add_reason_def AList.dom_map_entry keys_ensure)

lemma scores_ok_add_reason:
  "k \<in> S \<Longrightarrow> 0 \<le> x \<Longrightarrow> scores_ok S sc \<Longrightarrow> scores_ok S (add_reason k x w sc)"
  unfolding add_reason_def
  by (intro scores_ok_map_entry scores_ok_ensure) simp_all

lemma scores_ok_fold_add_reason:
  "set ks \<subseteq> S \<Longrightarrow> 0 \<le> x \<Longrightarrow> scores_ok S sc \<Longrightarrow>
   scores_ok S (fold (\<lambda>k. add_reason k x w) ks sc)"
  by (induction ks arbitrary: sc) (simp_all add: scores_ok_add_reason)

section \<open>Properties of the smurfing detector\<close>

lemma advance_bounds: "j \<le> advance ts w i j \<and> (j \<le> length ts \<longrightarrow> advance ts w i j \<le> length ts)"
proof (induction ts w i j rule: advance.induct)
  case (1 ts w i j)
  show ?case
  proof (cases "j < length ts \<and> ts ! j - ts ! i \<le> w")
    case True
    with 1 have "Suc j \<le> advance ts w i (Suc j) \<and> advance ts w i (Suc j) \<le> length ts"
      by simp
    with True show ?thesis by (subst (1 2) advance.simps) simp
  next
    case False
    then have "advance ts w i j = j" by (subst advance.simps) auto
    then show ?thesis by simp
  qed
qed

lemma scan_Some:
  "scan ts w thr i j = Some (a, b) \<Longrightarrow> j \<le> length ts \<Longrightarrow>
   i \<le> a \<and> a < length ts \<and> b \<le> length ts \<and> thr \<le> int b - int a"
proof (induction ts w thr i j rule: scan.induct)
  case (1 ts w thr i j)
  let ?j = "advance ts w i j"
  have j': "?j \<le> length ts" using advance_bounds [of j ts w i] "1.prems" by simp
  from "1.prems" have i: "i < length ts"
    by (subst (asm) scan.simps) (simp split: if_splits)
  show ?case
  proof (cases "thr \<le> int ?j - int i")
    case True
    with i have "scan ts w thr i j = Some (i, ?j)"
      by (subst scan.simps) (simp add: Let_def)
    with "1.prems" have "a = i \<and> b = ?j"
      by auto
    with True i j' show ?thesis by simp
  next
    case False
    with i have "scan ts w thr i j = scan ts w thr (Suc i) ?j"
      by (subst scan.simps) (simp add: Let_def)
    with "1.prems" have "scan ts w thr (Suc i) ?j = Some (a, b)"
      by simp
    from "1.IH" [OF i refl False this j'] show ?thesis by simp
  qed
qed

lemma smurf_window_Some:
  "smurf_window es thr w = Some (i, j) \<Longrightarrow>
   i < length es \<and> j \<le> length es \<and> thr \<le> int j - int i"
proof -
  assume "smurf_window es thr w = Some (i, j)"
  then have "scan (sorted_timestamps es) w thr 0 0 = Some (i, j)"
    by (simp add: smurf_window_def split: if_splits)
  from scan_Some [OF this] show ?thesis by (simp add: sorted_timestamps_def)
qed

lemma fan_in_node_eq:
  "fan_in_node g thr w node st =
     (case smurf_window (in_edges g node) thr w of
        None \<Rightarrow> st
      | Some (i, j) \<Rightarrow>
          (fst st @ [fan_in_ring (in_edges g node) thr node i j],
           fold (\<lambda>s. add_reason s (real_of_int (70 + (int j - int i - thr) * 2) * 0.2) Fan_in_sender)
             (py_set (map (\<lambda>k. fst (fst (in_edges g node ! k))) [i..<j]))
             (add_reason node (real_of_int (70 + (int j - int i - thr) * 2) * 0.6)
                (Fan_in_receiver (int j - int i)) (snd st))))"
  by (simp add: fan_in_node_def smurf_window_def sorted_timestamps_def fan_in_ring_def Let_def
      split: option.split)

lemma fan_out_node_eq:
  "fan_out_node g thr w node st =
     (case smurf_window (out_edges g node) thr w of
        None \<Rightarrow> st
      | Some (i, j) \<Rightarrow>
          (fst st @ [fan_out_ring (out_edges g node) thr node i j],
           fold (\<lambda>s. add_reason s (real_of_int (70 + (int j - int i - thr) * 2) * 0.2) Fan_out_receiver)
             (py_set (map (\<lambda>k. snd (fst (out_edges g node ! k))) [i..<j]))
             (add_reason node (real_of_int (70 + (int j - int i - thr) * 2) * 0.6)
                (Fan_out_sender (int j - int i)) (snd st))))"
  by (simp add: fan_out_node_def smurf_window_def sorted_timestamps_def fan_out_ring_def Let_def
      split: option.split)

lemma fst_fan_in_node:
  "fst (fan_in_node g thr w node st) = fst st @ fan_in_emitted g thr w node"
  by (simp add: fan_in_node_eq fan_in_emitted_def split: option.split)

lemma fst_fan_out_node:
  "fst (fan_out_node g thr w node st) = fst st @ fan_out_emitted g thr w node"
  by (simp add: fan_out_node_eq fan_out_emitted_def split: option.split)

lemma fst_fold_fan_in:
  "fst (fold (fan_in_node g thr w) ns st) = fst st @ concat (map (fan_in_emitted g thr w) ns)"
  by (induction ns arbitrary: st) (simp_all add: fst_fan_in_node)

lemma fst_fold_fan_out:
  "fst (fold (fan_out_node g thr w) ns st) = fst st @ concat (map (fan_out_emitted g thr w) ns)"
  by (induction ns arbitrary: st) (simp_all add: fst_fan_out_node)

lemma smurfing_rings:
  "fst (detect_smurfing g thr wh) =
     concat (map (fan_in_emitted g thr (wh * 3600)) (g_nodes g)) @
     concat (map (fan_out_emitted g thr (wh * 3600)) (g_nodes g))"
  by (simp add: detect_smurfing_def Let_def fst_fold_fan_in fst_fold_fan_out)

lemma window_senders_in_nodes:
  assumes "wf_graph g" "j \<le> length (in_edges g node)"
  shows "set (py_set (map (\<lambda>k. fst (fst (in_edges g node ! k))) [i..<j])) \<subseteq> set (g_nodes g)"
proof -
  have "fst (fst (in_edges g node ! k)) \<in> set (g_nodes g)" if "k < j" for k
  proof -
    have "in_edges g node ! k \<in> set (g_edges g)"
      using that assms(2) nth_mem [of k "in_edges g node"] by (auto simp: in_edges_def)
    then show ?thesis using assms(1) by (auto simp: wf_graph_def)
  qed
  then show ?thesis by (auto simp: py_set_def)
qed

lemma window_receivers_in_nodes:
  assumes "wf_graph g" "j \<le> length (out_edges g node)"
  shows "set (py_set (map (\<lambda>k. snd (fst (out_edges g node ! k))) [i..<j])) \<subseteq> set (g_nodes g)"
proof -
  have "snd (fst (out_edges g node ! k)) \<in> set (g_nodes g)" if "k < j" for k
  proof -
    have "out_edges g node ! k \<in> set (g_edges g)"
      using that assms(2) nth_mem [of k "out_edges g node"] by (auto simp: out_edges_def)
    then show ?thesis using assms(1) by (auto simp: wf_graph_def)
  qed
  then show ?thesis by (auto simp: py_set_def)
qed

lemma scores_ok_fan_in_node:
  assumes "wf_graph g" "node \<in> set (g_nodes g)" "scores_ok (set (g_nodes g)) (snd st)"
  shows "scores_ok (set (g_nodes g)) (snd (fan_in_node g thr w node st))"
proof (cases "smurf_window (in_edges g node) thr w")
  case None
  with assms show ?thesis by (simp add: fan_in_node_eq)
next
  case (Some p)
  obtain i j where p: "p = (i, j)" by (cases p)
  from smurf_window_Some [OF Some [unfolded p]]
  have b: "j \<le> length (in_edges g node)" "thr \<le> int j - int i" by simp_all
  then have s: "(0::real) \<le> real_of_int (70 + (int j - int i - thr) * 2)" by simp
  show ?thesis
    unfolding fan_in_node_eq Some p
    using assms s window_senders_in_nodes [OF assms(1) b(1)]
    by (simp add: scores_ok_fold_add_reason scores_ok_add_reason)
qed

lemma scores_ok_fan_out_node:
  assumes "wf_graph g" "node \<in> set (g_nodes g)" "scores_ok (set (g_nodes g)) (snd st)"
  shows "scores_ok (set (g_nodes g)) (snd (fan_out_node g thr w node st))"
proof (cases "smurf_window (out_edges g node) thr w")
  case None
  with assms show ?thesis by (simp add: fan_out_node_eq)
next
  case (Some p)
  obtain i j where p: "p = (i, j)" by (cases p)
  from smurf_window_Some [OF Some [unfolded p]]
  have b: "j \<le> length (out_edges g node)" "thr \<le> int j - int i" by simp_all
  then have s: "(0::real) \<le> real_of_int (70 + (int j - int i - thr) * 2)" by simp
  show ?thesis
    unfolding fan_out_node_eq Some p
    using assms s window_receivers_in_nodes [OF assms(1) b(1)]
    by (simp add: scores_ok_fold_add_reason scores_ok_add_reason)
qed

lemma scores_ok_fold_fan_in:
  "wf_graph g \<Longrightarrow> set ns \<subseteq> set (g_nodes g) \<Longrightarrow> scores_ok (set (g_nodes g)) (snd st) \<Longrightarrow>
   scores_ok (set (g_nodes g)) (snd (fold (fan_in_node g thr w) ns st))"
  by (induction ns arbitrary: st) (simp_all add: scores_ok_fan_in_node)

lemma scores_ok_fold_fan_out:
  "wf_graph g \<Longrightarrow> set ns \<subseteq> set (g_nodes g) \<Longrightarrow> scores_ok (set (g_nodes g)) (snd st) \<Longrightarrow>
   scores_ok (set (g_nodes g)) (snd (fold (fan_out_node g thr w) ns st))"
  by (induction ns arbitrary: st) (simp_all add: scores_ok_fan_out_node)

lemma scores_ok_smurfing:
  "wf_graph g \<Longrightarrow> scores_ok (set (g_nodes g)) (snd (detect_smurfing g thr wh))"
  by (simp add: detect_smurfing_def Let_def scores_ok_fold_fan_out scores_ok_fold_fan_in
      scores_ok_Nil)

section \<open>Properties of the shell-chain detector\<close>

lemma set_fromkeys_aux:
  "set (foldl (\<lambda>keys x. if x \<in> set keys then keys else keys @ [x]) acc xs) = set acc \<union> set xs"
  by (induction xs arbitrary: acc) auto

lemma set_dict_fromkeys: "set (dict_fromkeys xs) = set xs"
  by (simp add: dict_fromkeys_def set_fromkeys_aux)

lemma visit_path_eq:
  "visit_path g min_hops low path st =
     (if shell_emits g min_hops low path \<and> path \<notin> set (snd (snd st)) then
        (fst st @ [shell_ring path],
         add_reason (last path)
           (real_of_int (50 + (int (length (butlast (tl path))) - 1) * 5) * 0.2) Shell_destination
           (add_reason (hd path)
              (real_of_int (50 + (int (length (butlast (tl path))) - 1) * 5) * 0.2) Shell_originator
              (fold (\<lambda>mid. add_reason mid
                  (real_of_int (50 + (int (length (butlast (tl path))) - 1) * 5) * 0.4)
                  Shell_intermediary)
                 (butlast (tl path)) (fst (snd st)))),
         path # snd (snd st))
      else st)"
  by (simp add: visit_path_def shell_emits_def shell_ring_def Let_def)

lemma shell_ok_visit_path:
  assumes "shell_ok g min_hops low st" "set path \<subseteq> set (g_nodes g)"
  shows "shell_ok g min_hops low (visit_path g min_hops low path st)"
proof (cases "shell_emits g min_hops low path \<and> path \<notin> set (snd (snd st))")
  case False
  then have "visit_path g min_hops low path st = st"
    unfolding visit_path_eq by (rule if_not_P)
  with assms(1) show ?thesis by simp
next
  case True
  then have em: "shell_emits g min_hops low path" by simp
  then have ne: "path \<noteq> []" and inter: "butlast (tl path) \<noteq> []"
    by (auto simp: shell_emits_def)
  have "length (butlast (tl path)) \<ge> 1"
    using inter by (cases "butlast (tl path)") simp_all
  then have s: "(0::real) \<le> real_of_int (50 + (int (length (butlast (tl path))) - 1) * 5)"
    by simp
  have mids: "set (butlast (tl path)) \<subseteq> set (g_nodes g)"
    using assms(2) by (meson in_set_butlastD list.set_sel(2) subset_iff tl_Nil ne)
  have ends: "hd path \<in> set (g_nodes g)" "last path \<in> set (g_nodes g)"
    using assms(2) ne by auto
  have "scores_ok (set (g_nodes g)) (fst (snd (visit_path g min_hops low path st)))"
    using True assms(1) s mids ends
    by (simp add: visit_path_eq shell_ok_def scores_ok_add_reason scores_ok_fold_add_reason)
  moreover have "\<forall>r \<in> set (fst (visit_path g min_hops low path st)).
      \<exists>p. r = shell_ring p \<and> shell_emits g min_hops low p \<and> set p \<subseteq> set (g_nodes g)"
    using True assms by (auto simp: visit_path_eq shell_ok_def)
  ultimately show ?thesis by (simp add: shell_ok_def)
qed

lemma pushes_in_nodes:
  assumes "wf_graph g" "set path \<subseteq> set (g_nodes g)" "e \<in> set (pushes g current path)"
  shows "set (snd e) \<subseteq> set (g_nodes g)"
proof -
  from assms(3) obtain d where "d \<in> set (g_edges g)" "snd e = path @ [snd (fst d)]"
    by (auto simp: pushes_def out_edges_def)
  with assms(1,2) show ?thesis by (auto simp: wf_graph_def)
qed

lemma shell_ok_dfs:
  "wf_graph g \<Longrightarrow> shell_ok g min_hops low st \<Longrightarrow>
   (\<And>e. e \<in> set stack \<Longrightarrow> set (snd e) \<subseteq> set (g_nodes g)) \<Longrightarrow>
   shell_ok g min_hops low (shell_dfs g min_hops max_hops low stack st)"
proof (induction g min_hops max_hops low stack st rule: shell_dfs.induct)
  case (1 g min_hops max_hops low st)
  then show ?case by simp
next
  case (2 g min_hops max_hops low current path stack st)
  show ?case
  proof (cases "length path - 1 > max_hops")
    case True
    with 2 show ?thesis by simp
  next
    case False
    have p: "set path \<subseteq> set (g_nodes g)" using "2.prems"(3) [of "(current, path)"] by simp
    have "shell_ok g min_hops low (visit_path g min_hops low path st)"
      by (rule shell_ok_visit_path [OF "2.prems"(2) p])
    moreover have "set (snd e) \<subseteq> set (g_nodes g)"
      if "e \<in> set (rev (pushes g current path) @ stack)" for e
      using that "2.prems"(3) [of e] pushes_in_nodes [OF "2.prems"(1) p, of e current] by auto
    ultimately have "shell_ok g min_hops low
        (shell_dfs g min_hops max_hops low (rev (pushes g current path) @ stack)
           (visit_path g min_hops low path st))"
      using "2.IH"(2) [OF False "2.prems"(1)] by blast
    with False show ?thesis by simp
  qed
qed

lemma shell_ok_fold:
  "wf_graph g \<Longrightarrow> set ns \<subseteq> set (g_nodes g) \<Longrightarrow> shell_ok g min_hops low st \<Longrightarrow>
   shell_ok g min_hops low
     (fold (\<lambda>start. shell_dfs g min_hops max_hops low [(start, [start])]) ns st)"
proof (induction ns arbitrary: st)
  case Nil
  then show ?case by simp
next
  case (Cons n ns)
  have "shell_ok g min_hops low (shell_dfs g min_hops max_hops low [(n, [n])] st)"
    using Cons.prems by (intro shell_ok_dfs) auto
  with Cons show ?case by simp
qed

lemma shell_ok_detect:
  assumes "wf_graph g"
  shows "(\<forall>r \<in> set (fst (detect_shell_chains g min_hops max_hops low)).
           \<exists>p. r = shell_ring p \<and> shell_emits g min_hops low p \<and> set p \<subseteq> set (g_nodes g)) \<and>
         scores_ok (set (g_nodes g)) (snd (detect_shell_chains g min_hops max_hops low))"
proof -
  have "shell_ok g min_hops low ([], [], [])"
    by (simp add: shell_ok_def scores_ok_Nil)
  then have "shell_ok g min_hops low
      (fold (\<lambda>start. shell_dfs g min_hops max_hops low [(start, [start])]) (g_nodes g) ([], [], []))"
    using assms by (intro shell_ok_fold) simp_all
  then show ?thesis
    by (simp add: detect_shell_chains_def Let_def shell_ok_def)
qed

section \<open>Rings of the output document\<close>

lemma strip_id_fields [simp]:
  "members (strip_id r) = members r" "pattern_type (strip_id r) = pattern_type r"
  "ring_risk_score (strip_id r) = ring_risk_score r" "details (strip_id r) = details r"
  by (simp_all add: strip_id_def)

lemma fraud_rings_strip:
  "map strip_id (fraud_rings (detect_all_patterns simple_cycles df)) =
     map strip_id (detected_rings simple_cycles df)"
  by (simp add: fraud_rings_detect strip_assign_ring_ids)

lemma fraud_ring_detected:
  assumes "r \<in> set (fraud_rings (detect_all_patterns simple_cycles df))"
  shows "\<exists>r' \<in> set (detected_rings simple_cycles df). strip_id r = strip_id r'"
proof -
  from assms have "strip_id r \<in> set (map strip_id (fraud_rings (detect_all_patterns simple_cycles df)))"
    by simp
  then have "strip_id r \<in> set (map strip_id (detected_rings simple_cycles df))"
    by (simp only: fraud_rings_strip)
  then show ?thesis by auto
qed

lemma fan_in_emitted_cases:
  assumes "r \<in> set (fan_in_emitted g thr w n)"
  shows "\<exists>i j. smurf_window (in_edges g n) thr w = Some (i, j) \<and>
           r = fan_in_ring (in_edges g n) thr n i j"
proof (cases "smurf_window (in_edges g n) thr w")
  case None
  with assms show ?thesis by (simp add: fan_in_emitted_def)
next
  case (Some p)
  obtain i j where "p = (i, j)" by (cases p)
  with Some assms show ?thesis by (simp add: fan_in_emitted_def)
qed

lemma fan_out_emitted_cases:
  assumes "r \<in> set (fan_out_emitted g thr w n)"
  shows "\<exists>i j. smurf_window (out_edges g n) thr w = Some (i, j) \<and>
           r = fan_out_ring (out_edges g n) thr n i j"
proof (cases "smurf_window (out_edges g n) thr w")
  case None
  with assms show ?thesis by (simp add: fan_out_emitted_def)
next
  case (Some p)
  obtain i j where "p = (i, j)" by (cases p)
  with Some assms show ?thesis by (simp add: fan_out_emitted_def)
qed

lemma smurfing_ring_cases:
  assumes "r \<in> set (fst (detect_smurfing g thr wh))"
  shows "(\<exists>n \<in> set (g_nodes g). \<exists>i j. smurf_window (in_edges g n) thr (wh * 3600) = Some (i, j) \<and>
            r = fan_in_ring (in_edges g n) thr n i j) \<or>
         (\<exists>n \<in> set (g_nodes g). \<exists>i j. smurf_window (out_edges g n) thr (wh * 3600) = Some (i, j) \<and>
            r = fan_out_ring (out_edges g n) thr n i j)"
proof -
  from assms consider
      n where "n \<in> set (g_nodes g)" "r \<in> set (fan_in_emitted g thr (wh * 3600) n)"
    | n where "n \<in> set (g_nodes g)" "r \<in> set (fan_out_emitted g thr (wh * 3600) n)"
    unfolding smurfing_rings by auto
  then show ?thesis
  proof cases
    case 1
    with fan_in_emitted_cases [OF 1(2)] show ?thesis by blast
  next
    case 2
    with fan_out_emitted_cases [OF 2(2)] show ?thesis by blast
  qed
qed

lemma smurfing_not_cycle:
  "filter (\<lambda>r. pattern_type r = ''cycle'') (fst (detect_smurfing g thr wh)) = []"
  by (auto simp: filter_empty_conv fan_in_ring_def fan_out_ring_def dest!: smurfing_ring_cases)

lemma shell_not_cycle:
  "wf_graph g \<Longrightarrow>
   filter (\<lambda>r. pattern_type r = ''cycle'') (fst (detect_shell_chains g min_hops max_hops low)) = []"
  using shell_ok_detect [of g min_hops max_hops low]
  by (fastforce simp: filter_empty_conv shell_ring_def)

lemma cycles_all_cycle:
  "filter (\<lambda>r. pattern_type r = ''cycle'') (detect_cycles cs min_len max_len) =
     detect_cycles cs min_len max_len"
  by (auto simp: filter_id_conv cycle_ring_def dest!: detect_cycles_rings)

lemma filter_strip:
  "map strip_id (filter (\<lambda>r. P (pattern_type r)) rs) = filter (\<lambda>r. P (pattern_type r)) (map strip_id rs)"
  by (simp add: filter_map o_def)

lemma cycle_rings_strip:
  "map strip_id (cycle_rings (detect_all_patterns simple_cycles df)) =
     map strip_id (detect_cycles (simple_cycles (build_graph df)) 3 5)"
proof -
  let ?P = "\<lambda>r. pattern_type r = ''cycle''"
  have "map strip_id (cycle_rings (detect_all_patterns simple_cycles df)) =
      filter ?P (map strip_id (detected_rings simple_cycles df))"
    unfolding cycle_rings_def
    using filter_strip [of "\<lambda>t. t = ''cycle''"] by (simp add: fraud_rings_strip)
  also have "\<dots> = map strip_id (filter ?P (detected_rings simple_cycles df))"
    using filter_strip [of "\<lambda>t. t = ''cycle''"] by simp
  also have "filter ?P (detected_rings simple_cycles df) =
      detect_cycles (simple_cycles (build_graph df)) 3 5"
    by (simp add: detected_rings_def Let_def cycles_all_cycle smurfing_not_cycle
        shell_not_cycle [OF wf_build_graph])
  finally show ?thesis .
qed

lemma cycle_rings_members:
  "map members (cycle_rings (detect_all_patterns simple_cycles df)) =
     map members (detect_cycles (simple_cycles (build_graph df)) 3 5)"
proof -
  have "map members rs = map members (map strip_id rs)" for rs
    by simp
  then show ?thesis by (metis cycle_rings_strip)
qed

text \<open>
  Claim C3.  For every batch and every list of cycles that the enumerator yields, no
  two cycle rings of the output have node sequences that are rotations of one another
  (so their lexicographically least rotations, the keys of the detector, differ), and
  the members of a cycle ring are a cycle as the enumerator yielded it, not its least
  rotation.
\<close>

theorem cycle_rings_differ_up_to_rotation:
  "distinct (map cycle_key (map members (cycle_rings (detect_all_patterns simple_cycles df)))) \<and>
   (\<forall>a < length (cycle_rings (detect_all_patterns simple_cycles df)).
    \<forall>b < length (cycle_rings (detect_all_patterns simple_cycles df)).
      a \<noteq> b \<longrightarrow>
      \<not> is_rotation (members (cycle_rings (detect_all_patterns simple_cycles df) ! a))
          (members (cycle_rings (detect_all_patterns simple_cycles df) ! b))) \<and>
   (\<forall>r \<in> set (cycle_rings (detect_all_patterns simple_cycles df)).
      members r \<in> set (simple_cycles (build_graph df)))"
proof -
  let ?cs = "cycle_rings (detect_all_patterns simple_cycles df)"
  let ?ds = "detect_cycles (simple_cycles (build_graph df)) 3 5"
  have mem: "map members ?cs = map members ?ds" by (rule cycle_rings_members)
  then have len: "length ?cs = length ?ds" by (metis length_map)
  have keys: "distinct (map cycle_key (map members ?cs))"
    using detect_cycles_keys [of "simple_cycles (build_graph df)" 3 5]
    by (simp add: mem o_def)
  have enum: "members r \<in> set (simple_cycles (build_graph df)) \<and> 3 \<le> length (members r)"
    if "r \<in> set ?cs" for r
  proof -
    from that have "members r \<in> set (map members ?ds)"
      unfolding mem [symmetric] by simp
    then obtain r' where "r' \<in> set ?ds" "members r = members r'" by auto
    moreover from detect_cycles_rings [OF \<open>r' \<in> set ?ds\<close>]
    obtain c where "c \<in> set (simple_cycles (build_graph df))" "3 \<le> length c"
        "r' = cycle_ring 3 c"
      by auto
    ultimately show ?thesis by (simp add: cycle_ring_def)
  qed
  have rot: "\<not> is_rotation (members (?cs ! a)) (members (?cs ! b))"
    if "a < length ?cs" "b < length ?cs" "a \<noteq> b" for a b
  proof
    assume r: "is_rotation (members (?cs ! a)) (members (?cs ! b))"
    have "members (?cs ! a) \<noteq> []"
      using enum [of "?cs ! a"] that(1) by auto
    from rotation_same_key [OF this r]
    have "map cycle_key (map members ?cs) ! b = map cycle_key (map members ?cs) ! a"
      using that by simp
    with keys that show False
      by (simp add: distinct_conv_nth)
  qed
  from keys rot enum show ?thesis by blast
qed



text \<open>
  The theorem at the two triangles: two cycle rings, the first with the members B, C, A
  as enumerated, whose least rotation is A, B, C.
\<close>

theorem cycle_rings_differ_up_to_rotation_witness:
  "length (cycle_rings (detect_all_patterns two_triangles_cycles two_triangles)) = 2 \<and>
   members (cycle_rings (detect_all_patterns two_triangles_cycles two_triangles) ! 0) =
     [''B'', ''C'', ''A''] \<and>
   cycle_key [''B'', ''C'', ''A''] = [''A'', ''B'', ''C''] \<and>
   members (cycle_rings (detect_all_patterns two_triangles_cycles two_triangles) ! 1) =
     [''A'', ''C'', ''B''] \<and>
   \<not> is_rotation [''B'', ''C'', ''A''] [''A'', ''C'', ''B''] \<and>
   [''B'', ''C'', ''A''] \<in> set (two_triangles_cycles (build_graph two_triangles))"
proof -
  let ?cs = "cycle_rings (detect_all_patterns two_triangles_cycles two_triangles)"
  have len: "length ?cs = 2" by code_simp
  have m0: "members (?cs ! 0) = [''B'', ''C'', ''A'']" by code_simp
  have m1: "members (?cs ! 1) = [''A'', ''C'', ''B'']" by code_simp
  have key: "cycle_key [''B'', ''C'', ''A''] = [''A'', ''B'', ''C'']" by code_simp
  have l0: "0 < length ?cs" and l1: "1 < length ?cs"
    by (simp_all only: len)
  have ne: "(0::nat) \<noteq> 1" by simp
  have in0: "?cs ! 0 \<in> set ?cs" by (rule nth_mem [OF l0])
  note rot = cycle_rings_differ_up_to_rotation [of two_triangles_cycles two_triangles,
      THEN conjunct2, THEN conjunct1, rule_format, OF l0 l1 ne]
  note enum = cycle_rings_differ_up_to_rotation [of two_triangles_cycles two_triangles,
      THEN conjunct2, THEN conjunct2, rule_format, OF in0]
  have r: "\<not> is_rotation [''B'', ''C'', ''A''] [''A'', ''C'', ''B'']"
    using rot unfolding m0 m1 .
  have e: "[''B'', ''C'', ''A''] \<in> set (two_triangles_cycles (build_graph two_triangles))"
    using enum unfolding m0 .
  show ?thesis
    by (rule conjI [OF len conjI [OF m0 conjI [OF key conjI [OF m1 conjI [OF r e]]]]])
qed

lemma detected_ring_cases:
  assumes "r \<in> set (detected_rings simple_cycles df)"
  shows "(\<exists>c \<in> set (simple_cycles (build_graph df)). 3 \<le> length c \<and> length c \<le> 5 \<and>
            r = cycle_ring 3 c) \<or>
         (\<exists>n \<in> set (g_nodes (build_graph df)). \<exists>i j.
            smurf_window (in_edges (build_graph df) n) 10 (72 * 3600) = Some (i, j) \<and>
            r = fan_in_ring (in_edges (build_graph df) n) 10 n i j) \<or>
         (\<exists>n \<in> set (g_nodes (build_graph df)). \<exists>i j.
            smurf_window (out_edges (build_graph df) n) 10 (72 * 3600) = Some (i, j) \<and>
            r = fan_out_ring (out_edges (build_graph df) n) 10 n i j) \<or>
         (\<exists>p. r = shell_ring p \<and> shell_emits (build_graph df) 3 3 p \<and>
            set p \<subseteq> set (g_nodes (build_graph df)))"
proof -
  let ?g = "build_graph df"
  from assms consider "r \<in> set (detect_cycles (simple_cycles ?g) 3 5)"
    | "r \<in> set (fst (detect_smurfing ?g 10 72))"
    | "r \<in> set (fst (detect_shell_chains ?g 3 6 3))"
    by (auto simp: detected_rings_def Let_def)
  then show ?thesis
  proof cases
    case 1
    from detect_cycles_rings [OF 1] show ?thesis by blast
  next
    case 2
    from smurfing_ring_cases [OF 2] show ?thesis by blast
  next
    case 3
    with shell_ok_detect [OF wf_build_graph, of df 3 6 3] show ?thesis by blast
  qed
qed

lemma low_activity_degree:
  "n \<in> set (low_activity_nodes g low) \<Longrightarrow> int (in_degree g n + out_degree g n) \<le> low"
  by (simp add: low_activity_nodes_def)

lemma path_interior:
  assumes "2 < length p"
  shows "p = hd p # butlast (tl p) @ [last p]"
proof -
  from assms obtain x xs where p: "p = x # xs" by (cases p) auto
  with assms have "xs \<noteq> []" by auto
  then have "xs = butlast xs @ [last xs]" by simp
  with p \<open>xs \<noteq> []\<close> show ?thesis by simp
qed

text \<open>
  Claim C6.  At the default parameters, for every batch, every ring of pattern type
  \<^verbatim>\<open>shell_chain\<close> in the output has a non-empty list \<^verbatim>\<open>details.intermediates\<close>,
  which is the path without its first and last node; every node of it has in-degree
  plus out-degree at most 3 in the transaction graph (that is, the distinct senders to
  it and the distinct receivers from it in the batch number at most 3 together); and
  the score of the ring is 50 + (number of intermediates - 1) * 5.
\<close>

theorem shell_chain_interior_low_activity:
  "\<forall>r \<in> set (fraud_rings (detect_all_patterns simple_cycles df)).
     pattern_type r = ''shell_chain'' \<longrightarrow>
       d_intermediates (details r) \<noteq> [] \<and>
       d_path (details r) =
         hd (d_path (details r)) # d_intermediates (details r) @ [last (d_path (details r))] \<and>
       (\<forall>n \<in> set (d_intermediates (details r)).
          in_degree (build_graph df) n + out_degree (build_graph df) n \<le> 3 \<and>
          length (remdups (map sender_id (filter (\<lambda>row. receiver_id row = n) df))) +
          length (remdups (map receiver_id (filter (\<lambda>row. sender_id row = n) df))) \<le> 3) \<and>
       ring_risk_score r = 50 + (real (length (d_intermediates (details r))) - 1) * 5"
proof (intro ballI impI)
  fix r
  assume r: "r \<in> set (fraud_rings (detect_all_patterns simple_cycles df))"
    and shell: "pattern_type r = ''shell_chain''"
  let ?g = "build_graph df"
  from fraud_ring_detected [OF r] obtain r' where
    r': "r' \<in> set (detected_rings simple_cycles df)" and eq: "strip_id r = strip_id r'"
    by blast
  from eq have fields: "pattern_type r = pattern_type r'" "details r = details r'"
      "ring_risk_score r = ring_risk_score r'"
    by (metis strip_id_fields)+
  from detected_ring_cases [OF r'] shell fields(1)
  obtain p where p: "r' = shell_ring p" "shell_emits ?g 3 3 p"
    by (auto simp: cycle_ring_def fan_in_ring_def fan_out_ring_def)
  let ?inter = "butlast (tl p)"
  have d: "details r = Shell_details p ?inter"
    by (simp add: fields p shell_ring_def)
  from p(2) have ne: "?inter \<noteq> []" and long: "2 < length p"
    and low: "list_all (\<lambda>node. node \<in> set (low_activity_nodes ?g 3)) ?inter"
    by (simp_all add: shell_emits_def)
  have deg: "in_degree ?g n + out_degree ?g n \<le> 3" if "n \<in> set ?inter" for n
    using low that low_activity_degree [of n ?g 3] by (auto simp: list_all_iff)
  have score: "ring_risk_score r = 50 + (real (length ?inter) - 1) * 5"
    by (simp add: fields p shell_ring_def)
  show "d_intermediates (details r) \<noteq> [] \<and>
       d_path (details r) =
         hd (d_path (details r)) # d_intermediates (details r) @ [last (d_path (details r))] \<and>
       (\<forall>n \<in> set (d_intermediates (details r)).
          in_degree (build_graph df) n + out_degree (build_graph df) n \<le> 3 \<and>
          length (remdups (map sender_id (filter (\<lambda>row. receiver_id row = n) df))) +
          length (remdups (map receiver_id (filter (\<lambda>row. sender_id row = n) df))) \<le> 3) \<and>
       ring_risk_score r = 50 + (real (length (d_intermediates (details r))) - 1) * 5"
    unfolding d details.sel
    using ne path_interior [OF long] deg score
    by (simp add: in_degree_build_graph out_degree_build_graph)
qed

text \<open>
  The theorem at the batch \<open>chain5\<close>: the second ring of the output is the shell chain
  A, B, C, D, E with the intermediates B, C, D and the score 60.
\<close>

theorem shell_chain_interior_low_activity_witness:
  "pattern_type (fraud_rings (detect_all_patterns (\<lambda>g. []) chain5) ! 1) = ''shell_chain'' \<and>
   d_path (details (fraud_rings (detect_all_patterns (\<lambda>g. []) chain5) ! 1)) =
     [''A'', ''B'', ''C'', ''D'', ''E''] \<and>
   d_intermediates (details (fraud_rings (detect_all_patterns (\<lambda>g. []) chain5) ! 1)) =
     [''B'', ''C'', ''D''] \<and>
   in_degree (build_graph chain5) ''C'' + out_degree (build_graph chain5) ''C'' \<le> 3 \<and>
   ring_risk_score (fraud_rings (detect_all_patterns (\<lambda>g. []) chain5) ! 1) =
     50 + (real (length [''B'', ''C'', ''D'']) - 1) * 5"
proof -
  let ?rs = "fraud_rings (detect_all_patterns (\<lambda>g. []) chain5)"
  have len: "length ?rs = 3" by code_simp
  have pt: "pattern_type (?rs ! 1) = ''shell_chain''" by code_simp
  have pa: "d_path (details (?rs ! 1)) = [''A'', ''B'', ''C'', ''D'', ''E'']" by code_simp
  have im: "d_intermediates (details (?rs ! 1)) = [''B'', ''C'', ''D'']" by code_simp
  have "1 < length ?rs" by (simp only: len)
  then have mem: "?rs ! 1 \<in> set ?rs" by (rule nth_mem)
  note inst = shell_chain_interior_low_activity [of "\<lambda>g. []" chain5, rule_format, OF mem pt]
  have c: "''C'' \<in> set (d_intermediates (details (?rs ! 1)))"
    unfolding im by simp
  note deg = inst [THEN conjunct2, THEN conjunct2, THEN conjunct1, rule_format, OF c,
      THEN conjunct1]
  have score: "ring_risk_score (?rs ! 1) = 50 + (real (length [''B'', ''C'', ''D'']) - 1) * 5"
    using inst [THEN conjunct2, THEN conjunct2, THEN conjunct2] unfolding im .
  show ?thesis
    by (rule conjI [OF pt conjI [OF pa conjI [OF im conjI [OF deg score]]]])
qed

section \<open>Properties of the score combiner\<close>

lemma keys_add_centrality: "fst ` set (add_centrality e c) = insert (fst e) (fst ` set c)"
  by (simp add: add_centrality_def AList.dom_map_entry keys_ensure)

lemma keys_add_pattern: "fst ` set (add_pattern e c) = insert (fst e) (fst ` set c)"
  by (simp add: add_pattern_def AList.dom_map_entry keys_ensure)

lemma keys_add_member: "fst ` set (add_member ring m c) = insert m (fst ` set c)"
  by (simp add: add_member_def AList.dom_map_entry keys_ensure)

lemma scores_ok_add_centrality:
  "fst e \<in> S \<Longrightarrow> 0 \<le> snd e \<Longrightarrow> scores_ok S c \<Longrightarrow> scores_ok S (add_centrality e c)"
  unfolding add_centrality_def
  by (intro scores_ok_map_entry scores_ok_ensure) simp_all

lemma scores_ok_add_pattern:
  "fst e \<in> S \<Longrightarrow> 0 \<le> risk_score (snd e) \<Longrightarrow> scores_ok S c \<Longrightarrow> scores_ok S (add_pattern e c)"
  unfolding add_pattern_def
  by (intro scores_ok_map_entry scores_ok_ensure) simp_all

lemma scores_ok_add_member:
  "m \<in> S \<Longrightarrow> 0 \<le> ring_risk_score ring \<Longrightarrow> scores_ok S c \<Longrightarrow> scores_ok S (add_member ring m c)"
  unfolding add_member_def
  by (intro scores_ok_map_entry scores_ok_ensure) simp_all

lemma keys_fold_add_centrality:
  "fst ` set (fold add_centrality es c) = fst ` set es \<union> fst ` set c"
  by (induction es arbitrary: c) (auto simp: keys_add_centrality)

lemma keys_fold_add_pattern:
  "fst ` set (fold add_pattern es c) = fst ` set es \<union> fst ` set c"
  by (induction es arbitrary: c) (auto simp: keys_add_pattern)

lemma keys_fold_add_member:
  "fst ` set (fold (add_member ring) ms c) = set ms \<union> fst ` set c"
  by (induction ms arbitrary: c) (auto simp: keys_add_member)

lemma keys_fold_patterns:
  "fst ` set (fold (\<lambda>ps. fold add_pattern ps) pss c) = (\<Union>ps \<in> set pss. fst ` set ps) \<union> fst ` set c"
  by (induction pss arbitrary: c) (auto simp: keys_fold_add_pattern)

lemma keys_fold_rings:
  "fst ` set (fold (\<lambda>ring. fold (add_member ring) (members ring)) rings c) =
     (\<Union>r \<in> set rings. set (members r)) \<union> fst ` set c"
  by (induction rings arbitrary: c) (auto simp: keys_fold_add_member)

lemma scores_ok_fold_add_centrality:
  "(\<And>e. e \<in> set es \<Longrightarrow> fst e \<in> S \<and> 0 \<le> snd e) \<Longrightarrow> scores_ok S c \<Longrightarrow>
   scores_ok S (fold add_centrality es c)"
  by (induction es arbitrary: c) (simp_all add: scores_ok_add_centrality)

lemma scores_ok_fold_add_pattern:
  "scores_ok S ps \<Longrightarrow> scores_ok S c \<Longrightarrow> scores_ok S (fold add_pattern ps c)"
proof (induction ps arbitrary: c)
  case Nil
  then show ?case by simp
next
  case (Cons e ps)
  from Cons.prems(1) have e: "fst e \<in> S" "0 \<le> risk_score (snd e)" and ps: "scores_ok S ps"
    by (simp_all add: scores_ok_def)
  from Cons.IH [OF ps scores_ok_add_pattern [OF e Cons.prems(2)]] show ?case by simp
qed

lemma scores_ok_fold_patterns:
  "(\<And>ps. ps \<in> set pss \<Longrightarrow> scores_ok S ps) \<Longrightarrow> scores_ok S c \<Longrightarrow>
   scores_ok S (fold (\<lambda>ps. fold add_pattern ps) pss c)"
  by (induction pss arbitrary: c) (simp_all add: scores_ok_fold_add_pattern)

lemma scores_ok_fold_add_member:
  "set ms \<subseteq> S \<Longrightarrow> 0 \<le> ring_risk_score ring \<Longrightarrow> scores_ok S c \<Longrightarrow>
   scores_ok S (fold (add_member ring) ms c)"
  by (induction ms arbitrary: c) (simp_all add: scores_ok_add_member)

lemma scores_ok_fold_rings:
  "(\<And>r. r \<in> set rings \<Longrightarrow> set (members r) \<subseteq> S \<and> 0 \<le> ring_risk_score r) \<Longrightarrow>
   scores_ok S c \<Longrightarrow>
   scores_ok S (fold (\<lambda>ring. fold (add_member ring) (members ring)) rings c)"
  by (induction rings arbitrary: c) (simp_all add: scores_ok_fold_add_member)

lemma degree_centrality_keys: "map fst (degree_centrality g) = g_nodes g"
  by (simp add: degree_centrality_def Let_def o_def)

lemma degree_centrality_nonneg: "e \<in> set (degree_centrality g) \<Longrightarrow> 0 \<le> snd e"
  by (auto simp: degree_centrality_def Let_def split: if_splits)

lemma centrality_keys:
  "fst ` set (if length (g_nodes g) > 0 then degree_centrality g else []) = set (g_nodes g)"
proof (cases "g_nodes g = []")
  case True
  then show ?thesis by simp
next
  case False
  have "fst ` set (degree_centrality g) = set (map fst (degree_centrality g))" by simp
  then have "fst ` set (degree_centrality g) = set (g_nodes g)"
    by (simp only: degree_centrality_keys)
  with False show ?thesis by simp
qed

lemma keys_combined_scores:
  "fst ` set (combined_scores g rings pss) =
     set (g_nodes g) \<union> (\<Union>ps \<in> set pss. fst ` set ps) \<union> (\<Union>r \<in> set rings. set (members r))"
  unfolding combined_scores_def keys_fold_rings keys_fold_patterns keys_fold_add_centrality
    centrality_keys
  by auto

lemma scores_ok_combined:
  assumes "set (g_nodes g) \<subseteq> S"
    and "\<And>ps. ps \<in> set pss \<Longrightarrow> scores_ok S ps"
    and "\<And>r. r \<in> set rings \<Longrightarrow> set (members r) \<subseteq> S \<and> 0 \<le> ring_risk_score r"
  shows "scores_ok S (combined_scores g rings pss)"
proof -
  have "fst e \<in> S \<and> 0 \<le> snd e"
    if "e \<in> set (if length (g_nodes g) > 0 then degree_centrality g else [])" for e
  proof -
    from that have e: "e \<in> set (degree_centrality g)" by (simp split: if_splits)
    then have "fst e \<in> set (map fst (degree_centrality g))" by simp
    with assms(1) degree_centrality_nonneg [OF e] show ?thesis
      by (auto simp: degree_centrality_keys simp del: set_map)
  qed
  then have "scores_ok S (fold add_centrality
      (if length (g_nodes g) > 0 then degree_centrality g else []) [])"
    by (intro scores_ok_fold_add_centrality scores_ok_Nil)
  then show ?thesis
    unfolding combined_scores_def
    using assms(2,3) by (intro scores_ok_fold_rings scores_ok_fold_patterns)
qed

lemma round_half_even_bounds: "\<lfloor>y\<rfloor> \<le> round_half_even y \<and> round_half_even y \<le> \<lceil>y\<rceil>"
proof -
  have "\<lfloor>y\<rfloor> + 1 \<le> \<lceil>y\<rceil>" if "y - of_int \<lfloor>y\<rfloor> \<ge> 1 / 2"
    using that by linarith
  moreover have "\<lfloor>y\<rfloor> \<le> \<lceil>y\<rceil>" by linarith
  ultimately show ?thesis
    by (auto simp: round_half_even_def Let_def)
qed

lemma py_round2_bounds:
  assumes "0 \<le> x" "x \<le> 100"
  shows "0 \<le> py_round2 x \<and> py_round2 x \<le> 100"
proof -
  let ?y = "x * 100"
  have "0 \<le> \<lfloor>?y\<rfloor>" using assms(1) by simp
  then have lo: "0 \<le> round_half_even ?y" using round_half_even_bounds [of ?y] by linarith
  have "?y \<le> 10000" using assms(2) by simp
  then have "\<lceil>?y\<rceil> \<le> 10000" by (simp add: ceiling_le_iff)
  then have hi: "round_half_even ?y \<le> 10000" using round_half_even_bounds [of ?y] by linarith
  from lo have "0 \<le> real_of_int (round_half_even ?y) / 100" by simp
  moreover from hi have "real_of_int (round_half_even ?y) \<le> 10000"
    by (metis of_int_le_iff of_int_numeral)
  then have "real_of_int (round_half_even ?y) / 100 \<le> 100" by simp
  ultimately show ?thesis by (simp add: py_round2_def)
qed

lemma combine_scores_range:
  assumes "scores_ok S (combined_scores g rings pss)" "a \<in> set (combine_scores g rings pss)"
  shows "0 \<le> risk_score a \<and> risk_score a \<le> 100"
proof -
  let ?accs = "map snd (combined_scores g rings pss)"
  let ?M = "Max (set (map risk_score ?accs))"
  have nonneg: "0 \<le> risk_score b" if "b \<in> set ?accs" for b
    using assms(1) that by (auto simp: scores_ok_def)
  have le_max: "risk_score b \<le> ?M" if "b \<in> set ?accs" for b
    using that by (intro Max_ge) auto
  from assms(2) have ne: "?accs \<noteq> []"
    by (auto simp: combine_scores_def Let_def split: if_splits)
  show ?thesis
  proof (cases "?M \<le> 0")
    case True
    have "combine_scores g rings pss = ?accs"
      unfolding combine_scores_def Let_def using ne True by (simp only: if_False if_True)
    with assms(2) have "a \<in> set ?accs"
      by simp
    with nonneg [of a] le_max [of a] True show ?thesis by linarith
  next
    case False
    have "combine_scores g rings pss =
        sort_key (\<lambda>a. - risk_score a)
          (map (\<lambda>acc. acc\<lparr>risk_score := py_round2 (min 100 (risk_score acc / ?M * 100))\<rparr>) ?accs)"
      unfolding combine_scores_def Let_def using ne False by (simp only: if_False)
    with assms(2) have "a \<in> set
          (map (\<lambda>acc. acc\<lparr>risk_score := py_round2 (min 100 (risk_score acc / ?M * 100))\<rparr>) ?accs)"
      by (simp only: set_sort)
    then have "a \<in> (\<lambda>acc. acc\<lparr>risk_score := py_round2 (min 100 (risk_score acc / ?M * 100))\<rparr>)
        ` set ?accs"
      by (simp only: set_map)
    then obtain b where b: "b \<in> set ?accs"
      and ab: "a = b\<lparr>risk_score := py_round2 (min 100 (risk_score b / ?M * 100))\<rparr>"
      by (rule imageE)
    from ab have a: "risk_score a = py_round2 (min 100 (risk_score b / ?M * 100))"
      by (metis AccountScore.select_convs(2) AccountScore.surjective AccountScore.update_convs(2))
    from False have M: "0 < ?M" by simp
    have "0 \<le> risk_score b / ?M * 100"
      using nonneg [OF b] M by simp
    then have "0 \<le> min 100 (risk_score b / ?M * 100)" by simp
    moreover have "min 100 (risk_score b / ?M * 100) \<le> 100" by simp
    ultimately show ?thesis unfolding a by (rule py_round2_bounds)
  qed
qed

lemma combine_scores_ids:
  assumes "scores_ok S (combined_scores g rings pss)"
  shows "set (map account_id (combine_scores g rings pss)) = fst ` set (combined_scores g rings pss)"
proof -
  let ?c = "combined_scores g rings pss"
  let ?accs = "map snd ?c"
  have ids: "map account_id ?accs = map fst ?c"
    using assms by (auto simp: scores_ok_def)
  have upd: "map account_id (map (\<lambda>acc. acc\<lparr>risk_score := f acc\<rparr>) ?accs) = map fst ?c" for f
    using ids by (simp add: o_def)
  have "set (map account_id (combine_scores g rings pss)) = set (map fst ?c)"
  proof (cases "?accs = []")
    case True
    then show ?thesis by (simp add: combine_scores_def)
  next
    case False
    show ?thesis
    proof (cases "Max (set (map risk_score ?accs)) \<le> 0")
      case True
      have "combine_scores g rings pss = ?accs"
        unfolding combine_scores_def Let_def using False True by (simp only: if_False if_True)
      then show ?thesis by (simp only: ids)
    next
      case M: False
      have "combine_scores g rings pss =
          sort_key (\<lambda>a. - risk_score a)
            (map (\<lambda>acc. acc\<lparr>risk_score :=
               py_round2 (min 100 (risk_score acc / Max (set (map risk_score ?accs)) * 100))\<rparr>) ?accs)"
        unfolding combine_scores_def Let_def using False M by (simp only: if_False)
      then have "set (map account_id (combine_scores g rings pss)) =
          set (map account_id (map (\<lambda>acc. acc\<lparr>risk_score :=
             py_round2 (min 100 (risk_score acc / Max (set (map risk_score ?accs)) * 100))\<rparr>) ?accs))"
        by (simp only: set_map set_sort)
      then show ?thesis by (simp only: upd)
    qed
  qed
  then show ?thesis by simp
qed

section \<open>Accounts of the output document\<close>

lemma scores_ok_mono: "scores_ok S sc \<Longrightarrow> S \<subseteq> T \<Longrightarrow> scores_ok T sc"
  by (auto simp: scores_ok_def)

lemma accounts_detect:
  "accounts (detect_all_patterns simple_cycles df) =
     combine_scores (build_graph df) (fraud_rings (detect_all_patterns simple_cycles df))
       [snd (detect_smurfing (build_graph df) 10 72), snd (detect_shell_chains (build_graph df) 3 6 3)]"
  by (simp add: detect_all_patterns_def Let_def)

lemma nodes_foldl_add_row:
  "set (g_nodes (foldl add_row g df)) = set (g_nodes g) \<union> sender_id ` set df \<union> receiver_id ` set df"
  by (induction df arbitrary: g) (auto simp: add_row_def)

lemma nodes_build_graph:
  "set (g_nodes (build_graph df)) = set (map sender_id df) \<union> set (map receiver_id df)"
  by (simp add: build_graph_def nodes_foldl_add_row empty_graph_def)

lemma set_py_set [simp]: "set (py_set xs) = set xs"
  by (simp add: py_set_def)

lemma detected_ring_score_nonneg:
  assumes "r \<in> set (detected_rings simple_cycles df)"
  shows "0 \<le> ring_risk_score r"
proof -
  from detected_ring_cases [OF assms] consider
      c where "r = cycle_ring 3 c"
    | n i j where "smurf_window (in_edges (build_graph df) n) 10 (72 * 3600) = Some (i, j)"
        "r = fan_in_ring (in_edges (build_graph df) n) 10 n i j"
    | n i j where "smurf_window (out_edges (build_graph df) n) 10 (72 * 3600) = Some (i, j)"
        "r = fan_out_ring (out_edges (build_graph df) n) 10 n i j"
    | p where "r = shell_ring p" "shell_emits (build_graph df) 3 3 p"
    by blast
  then show ?thesis
  proof cases
    case 1
    then show ?thesis by (simp add: cycle_ring_def)
  next
    case 2
    from smurf_window_Some [OF 2(1)] show ?thesis by (simp add: 2(2) fan_in_ring_def)
  next
    case 3
    from smurf_window_Some [OF 3(1)] show ?thesis by (simp add: 3(2) fan_out_ring_def)
  next
    case 4
    from 4(2) have "butlast (tl p) \<noteq> []" by (simp add: shell_emits_def)
    then have "1 \<le> length (butlast (tl p))" by (cases "butlast (tl p)") simp_all
    then show ?thesis by (simp add: 4(1) shell_ring_def)
  qed
qed

lemma detected_ring_members:
  assumes "r \<in> set (detected_rings simple_cycles df)"
    and "\<forall>c \<in> set (simple_cycles (build_graph df)). set c \<subseteq> set (g_nodes (build_graph df))"
  shows "set (members r) \<subseteq> set (g_nodes (build_graph df))"
proof -
  let ?g = "build_graph df"
  have wf: "wf_graph ?g" by (rule wf_build_graph)
  from detected_ring_cases [OF assms(1)] consider
      c where "c \<in> set (simple_cycles ?g)" "r = cycle_ring 3 c"
    | n i j where "n \<in> set (g_nodes ?g)"
        "smurf_window (in_edges ?g n) 10 (72 * 3600) = Some (i, j)"
        "r = fan_in_ring (in_edges ?g n) 10 n i j"
    | n i j where "n \<in> set (g_nodes ?g)"
        "smurf_window (out_edges ?g n) 10 (72 * 3600) = Some (i, j)"
        "r = fan_out_ring (out_edges ?g n) 10 n i j"
    | p where "r = shell_ring p" "set p \<subseteq> set (g_nodes ?g)"
    by blast
  then show ?thesis
  proof cases
    case 1
    with assms(2) show ?thesis by (simp add: cycle_ring_def)
  next
    case 2
    from smurf_window_Some [OF 2(2)] have "j \<le> length (in_edges ?g n)" by simp
    from window_senders_in_nodes [OF wf this, of i] 2(1) show ?thesis
      by (simp add: 2(3) fan_in_ring_def)
  next
    case 3
    from smurf_window_Some [OF 3(2)] have "j \<le> length (out_edges ?g n)" by simp
    from window_receivers_in_nodes [OF wf this, of i] 3(1) show ?thesis
      by (simp add: 3(3) fan_out_ring_def)
  next
    case 4
    then show ?thesis by (simp add: shell_ring_def set_dict_fromkeys)
  qed
qed

lemma fraud_ring_score_nonneg:
  assumes "r \<in> set (fraud_rings (detect_all_patterns simple_cycles df))"
  shows "0 \<le> ring_risk_score r"
proof -
  from fraud_ring_detected [OF assms] obtain r' where
    "r' \<in> set (detected_rings simple_cycles df)" "strip_id r = strip_id r'" by blast
  with detected_ring_score_nonneg [of r'] show ?thesis
    by (metis strip_id_fields(3))
qed

lemma fraud_ring_members:
  assumes "r \<in> set (fraud_rings (detect_all_patterns simple_cycles df))"
    and "\<forall>c \<in> set (simple_cycles (build_graph df)). set c \<subseteq> set (g_nodes (build_graph df))"
  shows "set (members r) \<subseteq> set (g_nodes (build_graph df))"
proof -
  from fraud_ring_detected [OF assms(1)] obtain r' where
    r': "r' \<in> set (detected_rings simple_cycles df)" and eq: "strip_id r = strip_id r'"
    by blast
  from eq have "members r = members r'" by (metis strip_id_fields(1))
  with detected_ring_members [OF r' assms(2)] show ?thesis by simp
qed

text \<open>
  Claim C2.  For every batch, whatever the cycle enumerator yields, every account of
  the output has a final \<^verbatim>\<open>risk_score\<close> between 0 and 100.  (All contributions are
  non-negative, so when the largest combined score is not positive the scores left
  unchanged are 0; otherwise each score is divided by the largest, capped and rounded.)
\<close>

theorem account_scores_in_range:
  "\<forall>a \<in> set (accounts (detect_all_patterns simple_cycles df)).
     0 \<le> risk_score a \<and> risk_score a \<le> 100"
proof
  fix a assume a: "a \<in> set (accounts (detect_all_patterns simple_cycles df))"
  let ?g = "build_graph df"
  let ?rings = "fraud_rings (detect_all_patterns simple_cycles df)"
  let ?pss = "[snd (detect_smurfing ?g 10 72), snd (detect_shell_chains ?g 3 6 3)]"
  have wf: "wf_graph ?g" by (rule wf_build_graph)
  have "scores_ok UNIV ps" if "ps \<in> set ?pss" for ps
    using that scores_ok_smurfing [OF wf, of 10 72] shell_ok_detect [OF wf, of 3 6 3]
    by (auto intro: scores_ok_mono)
  moreover have "set (members r) \<subseteq> UNIV \<and> 0 \<le> ring_risk_score r" if "r \<in> set ?rings" for r
    using fraud_ring_score_nonneg [OF that] by simp
  ultimately have "scores_ok UNIV (combined_scores ?g ?rings ?pss)"
    by (intro scores_ok_combined) simp_all
  moreover from a have "a \<in> set (combine_scores ?g ?rings ?pss)"
    by (simp only: accounts_detect)
  ultimately show "0 \<le> risk_score a \<and> risk_score a \<le> 100"
    by (rule combine_scores_range)
qed

text \<open>
  Claim C10.  For every batch (empty or not), when the cycles that the enumerator
  yields consist of nodes of the graph, as those of \<^verbatim>\<open>nx.simple_cycles\<close> do, the
  account ids of the output are exactly the nodes of the transaction graph, which are
  the senders and receivers of the batch.
\<close>

theorem accounts_are_the_nodes:
  assumes "\<forall>c \<in> set (simple_cycles (build_graph df)). set c \<subseteq> set (g_nodes (build_graph df))"
  shows "set (map account_id (accounts (detect_all_patterns simple_cycles df))) =
           set (g_nodes (build_graph df)) \<and>
         set (g_nodes (build_graph df)) = set (map sender_id df) \<union> set (map receiver_id df)"
proof -
  let ?g = "build_graph df"
  let ?S = "set (g_nodes ?g)"
  let ?rings = "fraud_rings (detect_all_patterns simple_cycles df)"
  let ?pss = "[snd (detect_smurfing ?g 10 72), snd (detect_shell_chains ?g 3 6 3)]"
  have wf: "wf_graph ?g" by (rule wf_build_graph)
  have ps: "scores_ok ?S ps" if "ps \<in> set ?pss" for ps
    using that scores_ok_smurfing [OF wf, of 10 72] shell_ok_detect [OF wf, of 3 6 3]
    by auto
  have rs: "set (members r) \<subseteq> ?S \<and> 0 \<le> ring_risk_score r" if "r \<in> set ?rings" for r
    using fraud_ring_score_nonneg [OF that] fraud_ring_members [OF that assms] by simp
  have ok: "scores_ok ?S (combined_scores ?g ?rings ?pss)"
    using ps rs by (intro scores_ok_combined) simp_all
  have "fst ` set ps \<subseteq> ?S" if "ps \<in> set ?pss" for ps
    using ps [OF that] by (auto simp: scores_ok_def)
  then have "fst ` set (combined_scores ?g ?rings ?pss) = ?S"
    unfolding keys_combined_scores using rs by blast
  with combine_scores_ids [OF ok]
  have "set (map account_id (accounts (detect_all_patterns simple_cycles df))) = ?S"
    by (simp only: accounts_detect)
  then show ?thesis by (simp only: nodes_build_graph simp_thms)
qed

text \<open>
  The theorem of claim C2 at the batch \<open>chain5\<close>: five accounts, the second of which
  has the score 91.47.
\<close>

theorem account_scores_in_range_witness:
  "length (accounts (detect_all_patterns (\<lambda>g. []) chain5)) = 5 \<and>
   map account_id (accounts (detect_all_patterns (\<lambda>g. []) chain5)) =
     [''C'', ''B'', ''D'', ''A'', ''E''] \<and>
   risk_score (accounts (detect_all_patterns (\<lambda>g. []) chain5) ! 1) = 9147 / 100 \<and>
   0 \<le> risk_score (accounts (detect_all_patterns (\<lambda>g. []) chain5) ! 1) \<and>
   risk_score (accounts (detect_all_patterns (\<lambda>g. []) chain5) ! 1) \<le> 100"
proof -
  let ?as = "accounts (detect_all_patterns (\<lambda>g. []) chain5)"
  have len: "length ?as = 5" by code_simp
  have ids: "map account_id ?as = [''C'', ''B'', ''D'', ''A'', ''E'']" by code_simp
  have val: "risk_score (?as ! 1) = 9147 / 100" by code_simp
  have "1 < length ?as" by (simp only: len)
  then have mem: "?as ! 1 \<in> set ?as" by (rule nth_mem)
  note range = account_scores_in_range [of "\<lambda>g. []" chain5, rule_format, OF mem]
  show ?thesis
    by (rule conjI [OF len conjI [OF ids conjI [OF val range]]])
qed

text \<open>
  The theorem of claim C10 at the two triangles, whose enumerated cycles consist of the
  nodes A, B, C.
\<close>

theorem accounts_are_the_nodes_witness:
  "set (map account_id (accounts (detect_all_patterns two_triangles_cycles two_triangles))) =
     set (g_nodes (build_graph two_triangles)) \<and>
   set (g_nodes (build_graph two_triangles)) =
     set (map sender_id two_triangles) \<union> set (map receiver_id two_triangles) \<and>
   g_nodes (build_graph two_triangles) = [''A'', ''B'', ''C'']"
proof -
  have hyp: "\<forall>c \<in> set (two_triangles_cycles (build_graph two_triangles)).
      set c \<subseteq> set (g_nodes (build_graph two_triangles))"
    by code_simp
  have nodes: "g_nodes (build_graph two_triangles) = [''A'', ''B'', ''C'']" by code_simp
  note inst = accounts_are_the_nodes [of two_triangles_cycles two_triangles, OF hyp]
  show ?thesis
    by (rule conjI [OF inst [THEN conjunct1] conjI [OF inst [THEN conjunct2] nodes]])
qed

section \<open>The centrality pass of the score combiner\<close>














end
